theory Spec2Isabelle
  imports Main
begin

section \<open>Strings as Python sees them\<close>

text \<open>
  A Python \<open>str\<close> is modelled as a \<^typ>\<open>string\<close>; a character is one of the 256
  code points of \<^typ>\<open>char\<close>. On that range \<open>str.isspace\<close> and the regular
  expression class \<open>\s\<close> hold for the code points 9 to 13, 28 to 32, 133 and 160.
\<close>

definition is_space :: "char \<Rightarrow> bool" where
  "is_space c = (of_char c \<in> {9, 10, 11, 12, 13, 28, 29, 30, 31, 32, 133, 160 :: nat})"

text \<open>\<open>str.strip()\<close> with no argument.\<close>

definition py_lstrip :: "string \<Rightarrow> string" where
  "py_lstrip s = dropWhile is_space s"

definition py_rstrip :: "string \<Rightarrow> string" where
  "py_rstrip s = rev (dropWhile is_space (rev s))"

definition py_strip :: "string \<Rightarrow> string" where
  "py_strip s = py_rstrip (py_lstrip s)"

text \<open>
  \<open>str.lower()\<close>: on the 256 code points it moves \<open>A\<close> to \<open>Z\<close> and the
  Latin-1 capitals 192 to 222 (except the multiplication sign 215) up by 32.
\<close>

definition lower_char :: "char \<Rightarrow> char" where
  "lower_char c =
     (let n = (of_char c :: nat) in
      if (65 \<le> n \<and> n \<le> 90) \<or> (192 \<le> n \<and> n \<le> 222 \<and> n \<noteq> 215)
      then char_of (n + 32) else c)"

definition py_lower :: "string \<Rightarrow> string" where
  "py_lower s = map lower_char s"

text \<open>\<open>str.endswith\<close>.\<close>

definition endswith :: "string \<Rightarrow> string \<Rightarrow> bool" where
  "endswith s suffix = (length suffix \<le> length s \<and> drop (length s - length suffix) s = suffix)"

text \<open>Truth value of an \<open>Optional[str]\<close>: \<open>None\<close> and the empty string are false.\<close>

fun truthy :: "string option \<Rightarrow> bool" where
  "truthy None = False"
| "truthy (Some s) = (s \<noteq> [])"

text \<open>\<open>x or default\<close> on an \<open>Optional[str]\<close>.\<close>

definition or_else :: "string option \<Rightarrow> string \<Rightarrow> string" where
  "or_else x d = (if truthy x then the x else d)"


section \<open>Regular expressions of the \<open>re\<close> module\<close>

text \<open>
  The patterns of the repository are sequences of character classes, greedy repetitions
  of one class, the end anchor and one capture group. A pattern is a list of items;
  \<open>Mark\<close> records the current position (the two ends of a group).
\<close>

datatype item =
  Cls "char \<Rightarrow> bool"
| Star "char \<Rightarrow> bool"
| Plus "char \<Rightarrow> bool"
| Eol
| Mark

text \<open>
  Backtracking matcher, anchored at the head of the string: \<open>i\<close> is the position of
  the head in the subject, \<open>ms\<close> the marks so far. A greedy repetition first tries to
  take one more character and falls back to the rest of the pattern. \<open>$\<close> (without
  \<open>MULTILINE\<close>) holds at the end and before one final newline. The result is the end
  position of the first match in backtracking order, with its marks.
\<close>

fun rmatch :: "item list \<Rightarrow> string \<Rightarrow> nat \<Rightarrow> nat list \<Rightarrow> (nat \<times> nat list) option" where
  "rmatch [] s i ms = Some (i, ms)"
| "rmatch (Cls p # r) [] i ms = None"
| "rmatch (Cls p # r) (c # cs) i ms = (if p c then rmatch r cs (Suc i) ms else None)"
| "rmatch (Star p # r) [] i ms = rmatch r [] i ms"
| "rmatch (Star p # r) (c # cs) i ms =
     (if p c then
        (case rmatch (Star p # r) cs (Suc i) ms of
           Some x \<Rightarrow> Some x
         | None \<Rightarrow> rmatch r (c # cs) i ms)
      else rmatch r (c # cs) i ms)"
| "rmatch (Plus p # r) [] i ms = None"
| "rmatch (Plus p # r) (c # cs) i ms = (if p c then rmatch (Star p # r) cs (Suc i) ms else None)"
| "rmatch (Eol # r) s i ms = (if s = [] \<or> s = [CHR 0x0A] then rmatch r s i ms else None)"
| "rmatch (Mark # r) s i ms = rmatch r s i (ms @ [i])"

text \<open>
  \<open>re.search\<close>: the match at the leftmost position that has one. The result is the
  start, the end and the marks (positions in the subject).
\<close>

fun search_from :: "item list \<Rightarrow> string \<Rightarrow> nat \<Rightarrow> (nat \<times> nat \<times> nat list) option" where
  "search_from pat [] i = (case rmatch pat [] i [] of Some (e, ms) \<Rightarrow> Some (i, e, ms) | None \<Rightarrow> None)"
| "search_from pat (c # cs) i =
     (case rmatch pat (c # cs) i [] of
        Some (e, ms) \<Rightarrow> Some (i, e, ms)
      | None \<Rightarrow> search_from pat cs (Suc i))"

definition re_search :: "item list \<Rightarrow> string \<Rightarrow> (nat \<times> nat \<times> nat list) option" where
  "re_search pat s = search_from pat s 0"

text \<open>
  \<open>re.sub(pattern, '', s)\<close> for a pattern that matches no empty string: the leftmost
  match is dropped and the scan goes on behind it. \<open>k\<close> counts the characters of the
  current match still to drop.
\<close>

fun sub_from :: "item list \<Rightarrow> nat \<Rightarrow> string \<Rightarrow> string" where
  "sub_from pat k [] = []"
| "sub_from pat k (c # cs) =
     (if 0 < k then sub_from pat (k - 1) cs
      else (case rmatch pat (c # cs) 0 [] of
              Some (e, ms) \<Rightarrow> (if e = 0 then c # sub_from pat 0 cs else sub_from pat (e - 1) cs)
            | None \<Rightarrow> c # sub_from pat 0 cs))"

definition re_sub_empty :: "item list \<Rightarrow> string \<Rightarrow> string" where
  "re_sub_empty pat s = sub_from pat 0 s"

text \<open>A literal under \<open>re.IGNORECASE\<close>, and a literal character.\<close>

definition ci :: "char \<Rightarrow> item" where
  "ci c = Cls (\<lambda>x. lower_char x = c)"

definition lit :: "char \<Rightarrow> item" where
  "lit c = Cls (\<lambda>x. x = c)"

text \<open>
  \<open>\w\<close> on the 256 code points: digits, letters, the underscore and the Latin-1
  letters and numerics.
\<close>

definition is_word :: "char \<Rightarrow> bool" where
  "is_word c =
     (let n = (of_char c :: nat) in
      (48 \<le> n \<and> n \<le> 57) \<or> (65 \<le> n \<and> n \<le> 90) \<or> n = 95 \<or> (97 \<le> n \<and> n \<le> 122)
      \<or> n \<in> {170, 178, 179, 181, 185, 186, 188, 189, 190}
      \<or> (192 \<le> n \<and> n \<le> 214) \<or> (216 \<le> n \<and> n \<le> 246) \<or> 248 \<le> n)"


section \<open>Tag extraction and triggers (\<open>adw_get_teamwork_tasks_direct.py\<close>)\<close>

text \<open>\<open>r'\{\{\w+:\s*[^}]+\}\}'\<close>, the pattern of \<open>extract_task_prompt\<close>.\<close>

definition tag_re :: "item list" where
  "tag_re = [lit CHR ''{'', lit CHR ''{'', Plus is_word, lit CHR '':'', Star is_space,
             Plus (\<lambda>c. c \<noteq> CHR ''}''), lit CHR ''}'', lit CHR ''}'']"

text \<open>\<open>r'\s*execute\s*$'\<close> with \<open>re.IGNORECASE\<close>.\<close>

definition execute_tail_re :: "item list" where
  "execute_tail_re = Star is_space # map ci ''execute'' @ [Star is_space, Eol]"

text \<open>\<open>r'continue\s*-\s*.+'\<close> with \<open>re.IGNORECASE\<close>: the dot stops at a newline.\<close>

definition continue_re :: "item list" where
  "continue_re = map ci ''continue'' @
     [Star is_space, lit CHR ''-'', Star is_space, Plus (\<lambda>c. c \<noteq> CHR 0x0A)]"

text \<open>\<open>r'continue\s*-\s*(.+)'\<close> with \<open>re.IGNORECASE | re.DOTALL\<close>.\<close>

definition continue_capture_re :: "item list" where
  "continue_capture_re = map ci ''continue'' @
     [Star is_space, lit CHR ''-'', Star is_space, Mark, Plus (\<lambda>c. True), Mark]"

text \<open>\<open>detect_execution_trigger\<close>: \<open>"execute"\<close>, \<open>"continue"\<close> or \<open>None\<close>.\<close>

definition detect_execution_trigger :: "string \<Rightarrow> string option" where
  "detect_execution_trigger description =
     (if endswith (py_strip description) ''execute'' then Some ''execute''
      else if re_search continue_re description \<noteq> None then Some ''continue''
      else None)"

text \<open>\<open>match.group(1)\<close> of a match with the two marks of the group.\<close>

definition group1 :: "string \<Rightarrow> nat list \<Rightarrow> string" where
  "group1 s ms = take (ms ! 1 - ms ! 0) (drop (ms ! 0) s)"

text \<open>\<open>extract_task_prompt\<close>.\<close>

definition extract_task_prompt :: "string \<Rightarrow> string option \<Rightarrow> string" where
  "extract_task_prompt description execution_trigger =
     (let prompt = re_sub_empty tag_re description in
      if execution_trigger = Some ''execute''
      then py_strip (re_sub_empty execute_tail_re prompt)
      else if execution_trigger = Some ''continue''
      then (case re_search continue_capture_re prompt of
              Some (b, e, ms) \<Rightarrow> py_strip (group1 prompt ms)
            | None \<Rightarrow> py_strip prompt)
      else py_strip prompt)"


section \<open>The task model (\<open>adw_modules/data_models.py\<close>)\<close>

text \<open>
  \<open>TeamworkTask\<close>, with the fields the delegation engine reads. \<open>tags\<close> is the
  dictionary of extracted tags.
\<close>

record TeamworkTask =
  task_id :: string
  project_id :: string
  title :: string
  status :: string
  description :: string
  tags :: "string \<rightharpoonup> string"
  worktree :: "string option"
  model :: "string option"
  workflow_type :: "string option"
  prototype :: "string option"
  execution_trigger :: "string option"
  task_prompt :: "string option"

text \<open>
  \<open>is_eligible_for_processing\<close>. The Python expression is a chain of \<open>and\<close>; its
  truth value is modelled (an empty status makes it the empty string, which is false).
\<close>

definition eligible_statuses :: "string list" where
  "eligible_statuses = [''new'', ''to do'', ''review'']"

definition is_eligible_for_processing :: "TeamworkTask \<Rightarrow> bool" where
  "is_eligible_for_processing t =
     (status t \<noteq> [] \<and> py_lower (status t) \<in> set eligible_statuses \<and>
      execution_trigger t \<in> {Some ''execute'', Some ''continue''})"

text \<open>\<open>get_preferred_model\<close>.\<close>

definition get_preferred_model :: "TeamworkTask \<Rightarrow> string" where
  "get_preferred_model t =
     (let m = (if truthy (model t) then the (model t)
               else (case tags t ''model'' of Some v \<Rightarrow> v | None \<Rightarrow> ''sonnet''))
      in if m \<in> set [''opus'', ''sonnet''] then m else ''sonnet'')"

text \<open>\<open>should_use_full_workflow\<close>.\<close>

definition should_use_full_workflow :: "TeamworkTask \<Rightarrow> bool" where
  "should_use_full_workflow t =
     (workflow_type t = Some ''plan'' \<or> tags t ''workflow'' = Some ''plan'' \<or>
      500 < length (or_else (task_prompt t) []))"


text \<open>
  \<open>get_task_prompt_for_agent\<close>. \<open>re.sub(r'\{\{[^}]+\}\}', '', desc)\<close> drops the brace
  spans, \<open>desc.replace("execute", "")\<close> drops every occurrence of the literal from left
  to right.
\<close>

definition brace_re :: "item list" where
  "brace_re = [lit CHR ''{'', lit CHR ''{'', Plus (\<lambda>c. c \<noteq> CHR ''}''), lit CHR ''}'', lit CHR ''}'']"

definition get_task_prompt_for_agent :: "TeamworkTask \<Rightarrow> string" where
  "get_task_prompt_for_agent t =
     (if execution_trigger t = Some ''continue'' then or_else (task_prompt t) []
      else py_strip (re_sub_empty (map lit ''execute'') (re_sub_empty brace_re (description t))))"

text \<open>
  \<open>TeamworkCronConfig\<close>: \<open>map_status_to_teamwork\<close> looks the system status up and
  falls back to the status itself.
\<close>

record TeamworkCronConfig =
  cfg_project_id :: string
  polling_interval :: int
  max_concurrent_tasks :: int
  dry_run :: bool
  status_mapping :: "string \<rightharpoonup> string"
  status_filter :: "string list"

definition default_status_mapping :: "string \<rightharpoonup> string" where
  "default_status_mapping =
     [''Not started'' \<mapsto> ''New'', ''In progress'' \<mapsto> ''In Progress'', ''Done'' \<mapsto> ''Complete'',
      ''HIL Review'' \<mapsto> ''Review'', ''Failed'' \<mapsto> ''Blocked'']"

definition map_status_to_teamwork :: "TeamworkCronConfig \<Rightarrow> string \<Rightarrow> string" where
  "map_status_to_teamwork C system_status =
     (case status_mapping C system_status of Some v \<Rightarrow> v | None \<Rightarrow> system_status)"


section \<open>The outside world of the task monitor\<close>

text \<open>
  A task dictionary of the fetch response: a key is missing, \<open>null\<close> or has a value.
  Values are strings (and a string dictionary for \<open>tags\<close>); the keys
  \<open>assigned_to\<close>, \<open>created_time\<close> and \<open>due_date\<close> are taken to be absent.
\<close>

datatype 'a jfield = Missing | Null | Val 'a

record task_dict =
  d_task_id :: "string jfield"
  d_project_id :: "string jfield"
  d_title :: "string jfield"
  d_status :: "string jfield"
  d_description :: "string jfield"
  d_tags :: "(string \<rightharpoonup> string) jfield"
  d_execution_trigger :: "string jfield"
  d_task_prompt :: "string jfield"

text \<open>
  \<open>d.get(k)\<close> and \<open>d.get(k, default)\<close>; \<open>None\<close> models Python's \<open>None\<close>.
\<close>

fun jget :: "'a jfield \<Rightarrow> 'a option" where
  "jget (Val v) = Some v"
| "jget Null = None"
| "jget Missing = None"

fun jget_default :: "'a jfield \<Rightarrow> 'a \<Rightarrow> 'a option" where
  "jget_default (Val v) d = Some v"
| "jget_default Null d = None"
| "jget_default Missing d = Some d"

text \<open>
  The constructor call of \<open>get_eligible_tasks\<close>. The result is \<open>None\<close> where the
  call raises: a required string field that is \<open>None\<close> fails validation, and
  \<open>.get\<close> on a \<open>null\<close> tags value raises.
\<close>

definition make_task :: "task_dict \<Rightarrow> TeamworkTask option" where
  "make_task d =
     (case (jget (d_task_id d), jget (d_project_id d), jget_default (d_title d) [],
            jget (d_status d), jget_default (d_description d) [], jget_default (d_tags d) Map.empty) of
        (Some tid, Some pid, Some ttl, Some st, Some ds, Some tg) \<Rightarrow>
          Some \<lparr> task_id = tid, project_id = pid, title = ttl, status = st, description = ds,
                 tags = tg, worktree = tg ''worktree'', model = tg ''model'',
                 workflow_type = tg ''workflow'', prototype = tg ''prototype'',
                 execution_trigger = jget (d_execution_trigger d),
                 task_prompt = jget_default (d_task_prompt d) [] \<rparr>
      | _ \<Rightarrow> None)"

text \<open>
  Arguments of an agent request: plain strings, and the dictionaries and lists that the
  code passes through \<open>json.dumps\<close> (kept structured, keys in source order).
\<close>

datatype arg = Plain string | JsonDict "(string \<times> string) list" | JsonList "string list" | Number int

record AgentTemplateRequest =
  agent_name :: string
  slash_command :: string
  args :: "arg list"
  req_adw_id :: string
  req_model :: string
  working_dir :: string

text \<open>\<open>execute_template\<close> answers with a response (success flag and output) or raises.\<close>

datatype exec_outcome = Response bool string | ExecRaises string

text \<open>
  What the world answers, call by call: the values of \<open>generate_short_id\<close>, the
  outcomes of \<open>execute_template\<close>, of \<open>subprocess.Popen\<close> (\<open>Some e\<close>: it raises
  with message \<open>e\<close>), the clock, and \<open>parse_json\<close> of \<open>adw_modules.utils\<close>
  (\<open>None\<close>: it raises). The modules \<open>adw_modules.agent\<close> and
  \<open>adw_modules.utils\<close> are not among the sources: their functions are parameters
  here, and every theorem holds for all of their possible answers. \<open>time.sleep\<close> and
  the log lines leave no trace in the model.
\<close>

record env =
  short_id :: "nat \<Rightarrow> string"
  exec_result :: "nat \<Rightarrow> exec_outcome"
  popen_result :: "nat \<Rightarrow> string option"
  now_iso :: "nat \<Rightarrow> string"
  parse_json :: "string \<Rightarrow> task_dict list option"
  cwd :: string

text \<open>
  The state of a manager and the trace of its calls: the in-flight set, the requests sent
  through \<open>execute_template\<close> and the command lines given to \<open>Popen\<close>, in order.
\<close>

record state =
  active_adw_ids :: "string set"
  id_calls :: nat
  requests :: "AgentTemplateRequest list"
  popen_calls :: "string list list"
  now_calls :: nat

definition generate_short_id :: "env \<Rightarrow> state \<Rightarrow> string \<times> state" where
  "generate_short_id E s = (short_id E (id_calls s), s\<lparr>id_calls := Suc (id_calls s)\<rparr>)"

definition execute_template :: "env \<Rightarrow> AgentTemplateRequest \<Rightarrow> state \<Rightarrow> exec_outcome \<times> state" where
  "execute_template E r s = (exec_result E (length (requests s)), s\<lparr>requests := requests s @ [r]\<rparr>)"

definition Popen :: "env \<Rightarrow> string list \<Rightarrow> state \<Rightarrow> string option \<times> state" where
  "Popen E argv s = (popen_result E (length (popen_calls s)), s\<lparr>popen_calls := popen_calls s @ [argv]\<rparr>)"

definition datetime_now :: "env \<Rightarrow> state \<Rightarrow> string \<times> state" where
  "datetime_now E s = (now_iso E (now_calls s), s\<lparr>now_calls := Suc (now_calls s)\<rparr>)"


section \<open>\<open>TeamworkTaskManager\<close> (\<open>adw_trigger_cron_teamwork_tasks.py\<close>)\<close>

text \<open>\<open>update_task_status\<close>: one request; a failed response and an exception give \<open>False\<close>.\<close>

definition update_task_status ::
  "TeamworkCronConfig \<Rightarrow> env \<Rightarrow> string \<Rightarrow> string \<Rightarrow> arg \<Rightarrow> state \<Rightarrow> bool \<times> state" where
  "update_task_status C E tid system_status update_content s =
     (let teamwork_status = map_status_to_teamwork C system_status;
          (aid, s1) = generate_short_id E s;
          request = \<lparr> agent_name = ''teamwork-task-updater'',
                      slash_command = ''/update_teamwork_task'',
                      args = [Plain tid, Plain teamwork_status, update_content],
                      req_adw_id = aid, req_model = ''sonnet'', working_dir = cwd E \<rparr>;
          (out, s2) = execute_template E request s1
      in case out of
           Response ok output \<Rightarrow> (ok, s2)
         | ExecRaises e \<Rightarrow> (False, s2))"

text \<open>
  \<open>_generate_worktree_name\<close>: \<open>re.sub(r'[^a-z0-9]+', '-', name)\<close> puts one hyphen for
  each run of other characters (the flag says that the run has started), then
  \<open>strip('-')\<close> and the cut at 50.
\<close>

definition is_lower_alnum :: "char \<Rightarrow> bool" where
  "is_lower_alnum c =
     (let n = (of_char c :: nat) in (48 \<le> n \<and> n \<le> 57) \<or> (97 \<le> n \<and> n \<le> 122))"

fun hyphenate :: "bool \<Rightarrow> string \<Rightarrow> string" where
  "hyphenate in_run [] = []"
| "hyphenate in_run (c # cs) =
     (if is_lower_alnum c then c # hyphenate False cs
      else if in_run then hyphenate True cs
      else CHR ''-'' # hyphenate True cs)"

definition strip_hyphens :: "string \<Rightarrow> string" where
  "strip_hyphens s = rev (dropWhile (\<lambda>c. c = CHR ''-'') (rev (dropWhile (\<lambda>c. c = CHR ''-'') s)))"

definition generate_worktree_name :: "TeamworkTask \<Rightarrow> string" where
  "generate_worktree_name t =
     (let name = strip_hyphens (hyphenate False (py_lower (title t)));
          name = (if 50 < length name then take 50 name else name)
      in if truthy (prototype t) then ''proto-'' @ name else ''feat-'' @ name)"

text \<open>\<open>_determine_workflow\<close>.\<close>

definition determine_workflow :: "TeamworkTask \<Rightarrow> string" where
  "determine_workflow t =
     (if truthy (prototype t) then ''plan-implement ('' @ the (prototype t) @ '')''
      else if should_use_full_workflow t then ''plan-implement''
      else ''build'')"

text \<open>The script and its arguments, as \<open>delegate_task\<close> chooses them.\<close>

definition workflow_script :: "TeamworkCronConfig \<Rightarrow> TeamworkTask \<Rightarrow> string \<Rightarrow> string \<Rightarrow> string \<Rightarrow> string \<Rightarrow> string list" where
  "workflow_script C t adw_id prompt worktree_name mdl =
     (if truthy (prototype t) then
        [''./adws/adw_plan_implement_update_teamwork_task.py'',
         adw_id, task_id t, prompt, worktree_name, the (prototype t), mdl, cfg_project_id C]
      else if should_use_full_workflow t then
        [''./adws/adw_plan_implement_update_teamwork_task.py'',
         adw_id, task_id t, prompt, worktree_name, [], mdl, cfg_project_id C]
      else
        [''./adws/adw_build_update_teamwork_task.py'',
         adw_id, task_id t, prompt, worktree_name, mdl, cfg_project_id C])"

text \<open>
  \<open>delegate_task\<close>. The identifier is drawn, drawn once more when it is in the
  in-flight set, and added to the set; then the claim, the choice of the script and the
  spawn. The result is the returned flag and the new state.
\<close>

definition delegate_task :: "TeamworkCronConfig \<Rightarrow> env \<Rightarrow> TeamworkTask \<Rightarrow> state \<Rightarrow> bool \<times> state" where
  "delegate_task C E t s =
     (let (adw_id, s1) = generate_short_id E s;
          (adw_id, s2) = (if adw_id \<in> active_adw_ids s1 then generate_short_id E s1 else (adw_id, s1));
          s3 = s2\<lparr>active_adw_ids := insert adw_id (active_adw_ids s2)\<rparr>;
          mdl = get_preferred_model t;
          worktree_name =
            (if truthy (worktree t) then the (worktree t)
             else if truthy (tags t ''worktree'') then the (tags t ''worktree'')
             else generate_worktree_name t);
          prompt = get_task_prompt_for_agent t;
          (ts, s4) = datetime_now E s3;
          update_metadata = JsonDict [(''adw_id'', adw_id), (''timestamp'', ts), (''model'', mdl),
                                      (''worktree_name'', worktree_name), (''status'', ''In progress'')];
          (claimed, s5) = update_task_status C E (task_id t) ''In progress'' update_metadata s4
      in if \<not> claimed then (False, s5\<lparr>active_adw_ids := active_adw_ids s5 - {adw_id}\<rparr>)
         else if dry_run C then (True, s5)
         else (case Popen E (workflow_script C t adw_id prompt worktree_name mdl) s5 of
                 (None, s6) \<Rightarrow> (True, s6)
               | (Some e, s6) \<Rightarrow>
                   (let (ts', s7) = datetime_now E s6;
                        error_metadata = JsonDict [(''adw_id'', adw_id), (''error'', e), (''timestamp'', ts')];
                        (u, s8) = update_task_status C E (task_id t) ''Failed'' error_metadata s7
                    in (False, s8\<lparr>active_adw_ids := active_adw_ids s8 - {adw_id}\<rparr>))))"

text \<open>
  \<open>get_eligible_tasks\<close>: one fetch request; a failed response, an exception and an
  empty or unreadable list give no task; a dictionary that does not build a task is
  skipped; the eligible tasks are kept in the order received.
\<close>

definition get_eligible_tasks :: "TeamworkCronConfig \<Rightarrow> env \<Rightarrow> int \<Rightarrow> state \<Rightarrow> TeamworkTask list \<times> state" where
  "get_eligible_tasks C E limit s =
     (let (aid, s1) = generate_short_id E s;
          request = \<lparr> agent_name = ''teamwork-task-fetcher'',
                      slash_command = ''/get_teamwork_tasks'',
                      args = [Plain (cfg_project_id C), JsonList (status_filter C), Number limit],
                      req_adw_id = aid, req_model = ''sonnet'', working_dir = cwd E \<rparr>;
          (out, s2) = execute_template E request s1
      in case out of
           ExecRaises e \<Rightarrow> ([], s2)
         | Response ok output \<Rightarrow>
             (if \<not> ok then ([], s2)
              else (case parse_json E output of
                      None \<Rightarrow> ([], s2)
                    | Some task_data \<Rightarrow>
                        (filter is_eligible_for_processing (List.map_filter make_task task_data), s2))))"

text \<open>The loop of \<open>run_once\<close>: every task is delegated, the successes are counted.\<close>

fun delegate_all :: "TeamworkCronConfig \<Rightarrow> env \<Rightarrow> TeamworkTask list \<Rightarrow> int \<Rightarrow> state \<Rightarrow> int \<times> state" where
  "delegate_all C E [] processed s = (processed, s)"
| "delegate_all C E (t # ts) processed s =
     (case delegate_task C E t s of
        (ok, s') \<Rightarrow> delegate_all C E ts (if ok then processed + 1 else processed) s')"

text \<open>\<open>run_once\<close>: the number of tasks delegated in one polling cycle.\<close>

definition run_once :: "TeamworkCronConfig \<Rightarrow> env \<Rightarrow> state \<Rightarrow> int \<times> state" where
  "run_once C E s =
     (case get_eligible_tasks C E (max_concurrent_tasks C) s of
        (tasks, s1) \<Rightarrow> (if tasks = [] then (0, s1) else delegate_all C E tasks 0 s1))"


section \<open>The spawn loop of the split monitor (\<open>adw_trigger_cron_teamwork_tasks_split.py\<close>)\<close>

text \<open>
  The entries of \<open>eligible_tasks\<close> that the spawn loop reads: the task identifier,
  the cleaned prompt and the merged tags.
\<close>

record eligible_entry =
  e_task_id :: string
  e_task_prompt :: string
  e_tags :: "string \<rightharpoonup> string"

text \<open>
  \<open>make_worktree_name\<close>: the first 50 characters in lower case, one hyphen for each
  run of other characters, no hyphen at the ends; a fresh identifier when nothing is left.
\<close>

definition make_worktree_name :: "env \<Rightarrow> string \<Rightarrow> bool \<Rightarrow> state \<Rightarrow> string \<times> state" where
  "make_worktree_name E task_description has_prototype s =
     (let name = strip_hyphens (hyphenate False (py_lower (take 50 task_description)));
          prefix = (if has_prototype then ''proto'' else ''feat'')
      in if name \<noteq> [] then (prefix @ ''-'' @ name, s)
         else (case generate_short_id E s of (sid, s') \<Rightarrow> (prefix @ ''-task-'' @ sid, s')))"

text \<open>\<open>spawn_workflow\<close>: nothing is spawned in a dry run; an exception gives \<open>False\<close>.\<close>

definition spawn_workflow :: "env \<Rightarrow> string list \<Rightarrow> bool \<Rightarrow> state \<Rightarrow> bool \<times> state" where
  "spawn_workflow E argv dry s =
     (if dry then (True, s)
      else (case Popen E argv s of (None, s') \<Rightarrow> (True, s') | (Some e, s') \<Rightarrow> (False, s')))"

text \<open>The body of the spawn loop (step 3 of \<open>main\<close>) for one task.\<close>

definition split_dispatch :: "env \<Rightarrow> string \<Rightarrow> bool \<Rightarrow> eligible_entry \<Rightarrow> state \<Rightarrow> bool \<times> state" where
  "split_dispatch E pid dry t s =
     (let (adw_id, s1) = generate_short_id E s;
          proto = e_tags t ''prototype'';
          has_prototype = truthy proto;
          mdl = (case e_tags t ''model'' of Some m \<Rightarrow> m | None \<Rightarrow> ''sonnet'');
          (worktree_name, s2) = make_worktree_name E (e_task_prompt t) has_prototype s1;
          argv = (if truthy proto then
                    [''./adws/adw_plan_implement_update_teamwork_task.py'', adw_id, e_task_id t,
                     e_task_prompt t, worktree_name, the proto, ''--model'', mdl,
                     ''--project-id'', pid]
                  else
                    [''./adws/adw_build_update_teamwork_task.py'', adw_id, e_task_id t,
                     e_task_prompt t, worktree_name, ''--model'', mdl, ''--project-id'', pid])
      in spawn_workflow E argv dry s2)"

text \<open>
  The loop over \<open>eligible_tasks[:config.max_concurrent_tasks]\<close>; the configuration
  accepts a maximum of at least 1, so that the slice is a prefix.
\<close>

fun split_spawn_loop :: "env \<Rightarrow> string \<Rightarrow> bool \<Rightarrow> eligible_entry list \<Rightarrow> int \<Rightarrow> state \<Rightarrow> int \<times> state" where
  "split_spawn_loop E pid dry [] processed s = (processed, s)"
| "split_spawn_loop E pid dry (t # ts) processed s =
     (case split_dispatch E pid dry t s of
        (ok, s') \<Rightarrow> split_spawn_loop E pid dry ts (if ok then processed + 1 else processed) s')"

definition split_spawn_cycle ::
  "TeamworkCronConfig \<Rightarrow> env \<Rightarrow> string \<Rightarrow> bool \<Rightarrow> eligible_entry list \<Rightarrow> state \<Rightarrow> int \<times> state" where
  "split_spawn_cycle C E pid dry eligible_tasks s =
     split_spawn_loop E pid dry (take (nat (max_concurrent_tasks C)) eligible_tasks) 0 s"


section \<open>The spawned workflow scripts\<close>















section \<open>The router as the specification words it\<close>

text \<open>
  \<open>selectModel\<close> in the words of the specification: the explicit model if it is set
  and valid, else the \<open>model\<close> tag if it is valid, else \<open>sonnet\<close>.
\<close>

definition spec_selectModel :: "(string \<rightharpoonup> string) \<Rightarrow> string option \<Rightarrow> string" where
  "spec_selectModel tg explicitModel =
     (if explicitModel \<in> {Some ''opus'', Some ''sonnet''} then the explicitModel
      else (case tg ''model'' of
              Some v \<Rightarrow> (if v \<in> {''opus'', ''sonnet''} then v else ''sonnet'')
            | None \<Rightarrow> ''sonnet''))"


text \<open>
  \<open>isEligible\<close> in the words of the specification: the status, in lower case, is in
  the allowed list and \<open>detectTrigger\<close> finds a trigger in the body.
\<close>

definition spec_isEligible :: "TeamworkTask \<Rightarrow> string set \<Rightarrow> bool" where
  "spec_isEligible t allowedStatuses =
     (py_lower (status t) \<in> allowedStatuses \<and>
      detect_execution_trigger (description t) \<noteq> None)"


section \<open>Occurrences in a string\<close>

text \<open>
  \<open>starts_with s p\<close>: \<open>p\<close> is a prefix of \<open>s\<close>. \<open>contains s p\<close>: \<open>p\<close> occurs in
  \<open>s\<close>. \<open>has_span s\<close>: \<open>s\<close> has a substring that starts with \<open>{{\<close> and ends with
  \<open>}}\<close>.
\<close>

fun starts_with :: "string \<Rightarrow> string \<Rightarrow> bool" where
  "starts_with s [] = True"
| "starts_with [] (p # ps) = False"
| "starts_with (c # cs) (p # ps) = (c = p \<and> starts_with cs ps)"

fun contains :: "string \<Rightarrow> string \<Rightarrow> bool" where
  "contains [] p = (p = [])"
| "contains (c # cs) p = (starts_with (c # cs) p \<or> contains cs p)"

fun has_span :: "string \<Rightarrow> bool" where
  "has_span [] = False"
| "has_span (c # cs) =
     ((starts_with (c # cs) ''{{'' \<and> contains (drop 1 cs) ''}}'') \<or> has_span cs)"

text \<open>
  \<open>continue_starts s\<close>: \<open>s\<close> starts with \<open>continue\<close> in any letter case, blanks, a
  hyphen and at least one more character.
\<close>

definition continue_starts :: "string \<Rightarrow> bool" where
  "continue_starts s =
     (py_lower (take (length ''continue'') s) = ''continue'' \<and>
      (case dropWhile is_space (drop (length ''continue'') s) of
         [] \<Rightarrow> False
       | c # r \<Rightarrow> c = CHR ''-'' \<and> r \<noteq> []))"


section \<open>Bodies made of text and tags\<close>

text \<open>
  A body written as a sequence of segments: plain text, and tags \<open>{{key:value}}\<close>.
  In a well-formed body the text has no opening brace, a key is a non-empty word and a
  value (with the blanks that follow the colon) is not empty and has no closing brace.
  \<open>texts\<close> is the body without its tags.
\<close>

datatype seg = Text string | Tag string string

fun render_seg :: "seg \<Rightarrow> string" where
  "render_seg (Text u) = u"
| "render_seg (Tag k v) = ''{{'' @ k @ '':'' @ v @ ''}}''"

definition render :: "seg list \<Rightarrow> string" where
  "render segs = concat (map render_seg segs)"

fun seg_text :: "seg \<Rightarrow> string" where
  "seg_text (Text u) = u"
| "seg_text (Tag k v) = []"

definition texts :: "seg list \<Rightarrow> string" where
  "texts segs = concat (map seg_text segs)"

fun wf_seg :: "seg \<Rightarrow> bool" where
  "wf_seg (Text u) = (CHR ''{'' \<notin> set u)"
| "wf_seg (Tag k v) = (k \<noteq> [] \<and> list_all is_word k \<and> v \<noteq> [] \<and> CHR ''}'' \<notin> set v)"

definition example_segs :: "seg list" where
  "example_segs = [Tag ''model'' '' opus'', Text '' '', Tag ''prototype'' '' vite_vue'',
                   Text '' do the thing'']"


section \<open>Sample inputs\<close>

definition example_dict :: "(string \<rightharpoonup> string) \<Rightarrow> string \<Rightarrow> task_dict" where
  "example_dict tg prompt =
     \<lparr> d_task_id = Val ''101'', d_project_id = Val ''805682'', d_title = Val ''Fix the login bug'',
       d_status = Val ''new'', d_description = Val (prompt @ '' execute''), d_tags = Val tg,
       d_execution_trigger = Val ''execute'', d_task_prompt = Val prompt \<rparr>"

definition example_task :: "(string \<rightharpoonup> string) \<Rightarrow> string \<Rightarrow> TeamworkTask" where
  "example_task tg prompt =
     \<lparr> task_id = ''101'', project_id = ''805682'', title = ''Fix the login bug'', status = ''new'',
       description = prompt @ '' execute'', tags = tg, worktree = tg ''worktree'',
       model = tg ''model'', workflow_type = tg ''workflow'', prototype = tg ''prototype'',
       execution_trigger = Some ''execute'', task_prompt = Some prompt \<rparr>"

definition example_config :: TeamworkCronConfig where
  "example_config =
     \<lparr> cfg_project_id = ''805682'', polling_interval = 15, max_concurrent_tasks = 3,
       dry_run = False, status_mapping = default_status_mapping,
       status_filter = [''new'', ''to do'', ''review''] \<rparr>"


text \<open>
  A world that answers every request with success; the identifiers and the outcomes of
  \<open>Popen\<close> are given. A state with a given in-flight set and an empty trace.
\<close>

definition example_env :: "(nat \<Rightarrow> string) \<Rightarrow> (nat \<Rightarrow> string option) \<Rightarrow> task_dict list \<Rightarrow> env" where
  "example_env ids spawn fetched =
     \<lparr> short_id = ids, exec_result = (\<lambda>n. Response True ''ok''), popen_result = spawn,
       now_iso = (\<lambda>n. ''2025-11-11T10:00:00''), parse_json = (\<lambda>output. Some fetched),
       cwd = ''/repo'' \<rparr>"

definition example_state :: "string set \<Rightarrow> state" where
  "example_state active =
     \<lparr> active_adw_ids = active, id_calls = 0, requests = [], popen_calls = [], now_calls = 0 \<rparr>"



text \<open>Identifiers that differ from call to call, and five eligible task dictionaries.\<close>

definition example_ids :: "nat \<Rightarrow> string" where
  "example_ids n =
     ''a1b2c3'' @ [''0123456789abcdef'' ! ((n div 16) mod 16), ''0123456789abcdef'' ! (n mod 16)]"

definition five_dicts :: "task_dict list" where
  "five_dicts =
     map (\<lambda>c. (example_dict Map.empty ''fix it'') \<lparr> d_task_id := Val [CHR ''1'', CHR ''0'', c] \<rparr>)
       ''12345''"


section \<open>Properties of the router and of the eligibility filter\<close>

lemma make_example: "make_task (example_dict tg p) = Some (example_task tg p)"
  by (simp add: make_task_def example_dict_def example_task_def)

lemma detect_execution_trigger_range:
  "detect_execution_trigger x \<in> {None, Some ''execute'', Some ''continue''}"
  by (simp add: detect_execution_trigger_def)

text \<open>
  C4, as the specification states it, fails. The method never looks at the body: it
  reads the field \<open>execution_trigger\<close>, which the monitor copies from the answer of the
  fetch. A task whose body holds no trigger and whose field says \<open>execute\<close> is
  eligible; a task built from a dictionary without that field is not eligible, although
  its body ends with \<open>execute\<close>. And the list of statuses is fixed in the method: a
  status outside \<open>new\<close>, \<open>to do\<close>, \<open>review\<close> is not eligible, whatever list is allowed.
\<close>

theorem is_eligible_counterexample:
  "is_eligible_for_processing (example_task Map.empty ''x'' \<lparr> description := ''just some notes'' \<rparr>)
   \<and> \<not> spec_isEligible (example_task Map.empty ''x'' \<lparr> description := ''just some notes'' \<rparr>)
         {''new'', ''to do'', ''review''}
   \<and> map_option is_eligible_for_processing
        (make_task (example_dict Map.empty ''x'' \<lparr> d_execution_trigger := Missing \<rparr>)) = Some False
   \<and> map_option (\<lambda>t. spec_isEligible t {''new'', ''to do'', ''review''})
        (make_task (example_dict Map.empty ''x'' \<lparr> d_execution_trigger := Missing \<rparr>)) = Some True
   \<and> \<not> is_eligible_for_processing (example_task Map.empty ''x'' \<lparr> status := ''planned'' \<rparr>)
   \<and> spec_isEligible (example_task Map.empty ''x'' \<lparr> status := ''planned'' \<rparr>) {''planned''}"
  by code_simp

text \<open>
  C4, amended. A task is eligible exactly when its status, in lower case, is one of
  \<open>new\<close>, \<open>to do\<close>, \<open>review\<close> (the list is fixed) and its field \<open>execution_trigger\<close>
  is \<open>execute\<close> or \<open>continue\<close>; the body has no part in it. A task of status \<open>done\<close>
  is never eligible, whatever its trigger, and a task whose trigger field is empty is
  never eligible, whatever its status.
\<close>

theorem is_eligible_reads_field:
  "(is_eligible_for_processing t \<longleftrightarrow>
      py_lower (status t) \<in> {''new'', ''to do'', ''review''} \<and>
      execution_trigger t \<in> {Some ''execute'', Some ''continue''})
   \<and> is_eligible_for_processing (t \<lparr> description := d \<rparr>) = is_eligible_for_processing t
   \<and> (py_lower (status t) = ''done'' \<longrightarrow> \<not> is_eligible_for_processing t)
   \<and> (execution_trigger t = None \<longrightarrow> \<not> is_eligible_for_processing t)"
proof -
  have l: "py_lower [] = []" by (simp add: py_lower_def)
  show ?thesis
    using l by (auto simp: is_eligible_for_processing_def eligible_statuses_def)
qed

theorem is_eligible_reads_field_witness:
  "is_eligible_for_processing (example_task Map.empty ''x'' \<lparr> status := ''To Do'' \<rparr>)
   \<and> is_eligible_for_processing
        (example_task Map.empty ''x'' \<lparr> status := ''To Do'', description := ''just some notes'' \<rparr>)
   \<and> \<not> is_eligible_for_processing (example_task Map.empty ''x'' \<lparr> status := ''Done'' \<rparr>)
   \<and> \<not> is_eligible_for_processing (example_task Map.empty ''x'' \<lparr> execution_trigger := None \<rparr>)"
proof -
  have l1: "py_lower ''To Do'' = ''to do''" by code_simp
  have l2: "py_lower ''Done'' = ''done''" by code_simp
  show ?thesis
    using is_eligible_reads_field [of "example_task Map.empty ''x'' \<lparr> status := ''To Do'' \<rparr>"
                                      "''just some notes''"]
          is_eligible_reads_field [of "example_task Map.empty ''x'' \<lparr> status := ''Done'' \<rparr>"]
          is_eligible_reads_field [of "example_task Map.empty ''x'' \<lparr> execution_trigger := None \<rparr>"]
    by (simp add: example_task_def l1 l2)
qed

text \<open>
  Where the field holds what \<open>detect_execution_trigger\<close> finds in the body, the method
  agrees with the wording of the specification for the default list.
\<close>

lemma is_eligible_when_field_is_detected:
  "execution_trigger t = detect_execution_trigger (description t) \<Longrightarrow>
   is_eligible_for_processing t = spec_isEligible t {''new'', ''to do'', ''review''}"
proof -
  have l: "py_lower [] = []" by (simp add: py_lower_def)
  assume "execution_trigger t = detect_execution_trigger (description t)"
  then show ?thesis
    using detect_execution_trigger_range [of "description t"] l
    by (auto simp: is_eligible_for_processing_def eligible_statuses_def spec_isEligible_def)
qed

text \<open>
  C8. For a task built from a fetched dictionary, the router takes the plan-implement
  workflow (in the logged name and in the script it spawns) exactly when the
  \<open>prototype\<close> tag is set (present and not empty, the truth test of the code), or the
  \<open>workflow\<close> tag is \<open>plan\<close>, or the prompt is longer than 500 characters; otherwise
  it takes the build workflow.
\<close>

theorem select_workflow_iff:
  assumes "make_task d = Some t"
  shows "(truthy (tags t ''prototype'') \<or> tags t ''workflow'' = Some ''plan'' \<or>
            500 < length (or_else (task_prompt t) [])
          \<longrightarrow> determine_workflow t \<in>
                {''plan-implement'', ''plan-implement ('' @ the (tags t ''prototype'') @ '')''}
              \<and> hd (workflow_script C t a p w m) =
                  ''./adws/adw_plan_implement_update_teamwork_task.py'')
       \<and> (\<not> (truthy (tags t ''prototype'') \<or> tags t ''workflow'' = Some ''plan'' \<or>
            500 < length (or_else (task_prompt t) []))
          \<longrightarrow> determine_workflow t = ''build''
              \<and> hd (workflow_script C t a p w m) = ''./adws/adw_build_update_teamwork_task.py'')"
proof -
  from assms
  have "prototype t = tags t ''prototype'' \<and> workflow_type t = tags t ''workflow''"
    by (auto simp: make_task_def split: option.splits)
  then show ?thesis
    by (simp add: determine_workflow_def workflow_script_def should_use_full_workflow_def)
qed

text \<open>
  The three cases of the specification: no tag and 501 characters, no tag and 10
  characters, the tag \<open>prototype: uv_script\<close> and one character.
\<close>

theorem select_workflow_iff_witness:
  "make_task (example_dict Map.empty (replicate 501 CHR ''x''))
     = Some (example_task Map.empty (replicate 501 CHR ''x''))
   \<and> determine_workflow (example_task Map.empty (replicate 501 CHR ''x'')) = ''plan-implement''
   \<and> determine_workflow (example_task Map.empty (replicate 10 CHR ''x'')) = ''build''
   \<and> determine_workflow (example_task [''prototype'' \<mapsto> ''uv_script''] ''x'')
       = ''plan-implement (uv_script)''
   \<and> hd (workflow_script example_config (example_task [''prototype'' \<mapsto> ''uv_script''] ''x'')
           ''a1'' ''x'' ''w'' ''sonnet'')
       = ''./adws/adw_plan_implement_update_teamwork_task.py''"
  using select_workflow_iff [OF make_example, of Map.empty "replicate 501 CHR ''x''"
          example_config "''a1''" "''x''" "''w''" "''sonnet''"]
        select_workflow_iff [OF make_example, of Map.empty "replicate 10 CHR ''x''"
          example_config "''a1''" "''x''" "''w''" "''sonnet''"]
        select_workflow_iff [OF make_example, of "[''prototype'' \<mapsto> ''uv_script'']" "''x''"
          example_config "''a1''" "''x''" "''w''" "''sonnet''"]
  by (simp add: make_example example_task_def or_else_def determine_workflow_def
        workflow_script_def should_use_full_workflow_def)

text \<open>
  C9, as the specification states it, fails: with the explicit model \<open>haiku\<close> and the
  tag \<open>model: opus\<close> the specification falls through to the tag and answers
  \<open>opus\<close>; \<open>get_preferred_model\<close> answers \<open>sonnet\<close>.
\<close>

theorem get_preferred_model_counterexample:
  "get_preferred_model (example_task [''model'' \<mapsto> ''opus''] ''x'' \<lparr> model := Some ''haiku'' \<rparr>)
     \<noteq> spec_selectModel [''model'' \<mapsto> ''opus''] (Some ''haiku'')"
  by (simp add: get_preferred_model_def spec_selectModel_def example_task_def)

text \<open>
  C9, amended. \<open>get_preferred_model\<close> never fails and its result is \<open>opus\<close> or
  \<open>sonnet\<close>: when the explicit model is set (not \<open>None\<close>, not empty) the result is
  that model if it is \<open>opus\<close> or \<open>sonnet\<close> and \<open>sonnet\<close> otherwise, and the tags
  are not read; when it is not set the result is the \<open>model\<close> tag if that is
  \<open>opus\<close> or \<open>sonnet\<close>, and \<open>sonnet\<close> otherwise.
\<close>

theorem get_preferred_model_cases:
  "get_preferred_model t =
     (if truthy (model t)
      then (if the (model t) \<in> {''opus'', ''sonnet''} then the (model t) else ''sonnet'')
      else (case tags t ''model'' of
              Some v \<Rightarrow> (if v \<in> {''opus'', ''sonnet''} then v else ''sonnet'')
            | None \<Rightarrow> ''sonnet''))"
  by (simp add: get_preferred_model_def Let_def split: option.splits)

theorem get_preferred_model_cases_witness:
  "get_preferred_model (example_task [''model'' \<mapsto> ''opus''] ''x'' \<lparr> model := Some ''haiku'' \<rparr>)
     = ''sonnet''
   \<and> get_preferred_model (example_task [''model'' \<mapsto> ''opus''] ''x'' \<lparr> model := None \<rparr>) = ''opus''"
  using get_preferred_model_cases
          [of "example_task [''model'' \<mapsto> ''opus''] ''x'' \<lparr> model := Some ''haiku'' \<rparr>"]
        get_preferred_model_cases
          [of "example_task [''model'' \<mapsto> ''opus''] ''x'' \<lparr> model := None \<rparr>"]
  by (simp add: example_task_def)


section \<open>Properties of the workflow scripts\<close>













section \<open>Properties of the delegation manager\<close>

lemmas world_defs = generate_short_id_def execute_template_def Popen_def datetime_now_def
  update_task_status_def

text \<open>
  C1. When the monitor is not in dry-run mode, the claim (the status update sent first)
  succeeds and \<open>Popen\<close> raises, \<open>delegate_task\<close> returns \<open>False\<close>; it has sent
  exactly two requests, the claim with the mapping of \<open>In progress\<close> and, after it,
  one update with the mapping of \<open>Failed\<close> whose payload holds the identifier of the
  claim and the error; the identifier is not in the in-flight set afterwards; and the
  one call of \<open>Popen\<close> is the one that raised, so that nothing was spawned.
\<close>

theorem delegate_task_rollback:
  assumes "\<not> dry_run C"
    and "exec_result E (length (requests s)) = Response True out"
    and "popen_result E (length (popen_calls s)) = Some err"
  shows "\<exists>claim_req failed_req d ts argv.
           fst (delegate_task C E t s) = False
         \<and> requests (snd (delegate_task C E t s)) = requests s @ [claim_req, failed_req]
         \<and> slash_command claim_req = ''/update_teamwork_task''
         \<and> take 2 (args claim_req) =
             [Plain (task_id t), Plain (map_status_to_teamwork C ''In progress'')]
         \<and> (\<exists>rest. args claim_req ! 2 = JsonDict ((''adw_id'', d) # rest))
         \<and> slash_command failed_req = ''/update_teamwork_task''
         \<and> args failed_req = [Plain (task_id t), Plain (map_status_to_teamwork C ''Failed''),
               JsonDict [(''adw_id'', d), (''error'', err), (''timestamp'', ts)]]
         \<and> d \<notin> active_adw_ids (snd (delegate_task C E t s))
         \<and> popen_calls (snd (delegate_task C E t s)) = popen_calls s @ [argv]
         \<and> popen_result E (length (popen_calls s)) \<noteq> None"
  using assms
  by (cases "exec_result E (Suc (length (requests s)))")
     (simp_all add: delegate_task_def world_defs Let_def split_beta)

text \<open>
  A run of the rollback: the spawn fails with \<open>No such file\<close>; the two requests are
  the claim and the update to \<open>Blocked\<close>, the mapping of \<open>Failed\<close>.
\<close>

theorem delegate_task_rollback_witness:
  "\<not> dry_run example_config
   \<and> fst (delegate_task example_config
        (example_env example_ids (\<lambda>n. Some ''No such file'') [])
        (example_task Map.empty ''fix it'') (example_state {})) = False
   \<and> map (\<lambda>q. args q) (requests (snd (delegate_task example_config
        (example_env example_ids (\<lambda>n. Some ''No such file'') [])
        (example_task Map.empty ''fix it'') (example_state {}))))
      = [[Plain ''101'', Plain ''In Progress'',
          JsonDict [(''adw_id'', ''a1b2c300''), (''timestamp'', ''2025-11-11T10:00:00''),
                   (''model'', ''sonnet''), (''worktree_name'', ''feat-fix-the-login-bug''),
                   (''status'', ''In progress'')]],
         [Plain ''101'', Plain ''Blocked'',
          JsonDict [(''adw_id'', ''a1b2c300''), (''error'', ''No such file''),
                    (''timestamp'', ''2025-11-11T10:00:00'')]]]
   \<and> ''a1b2c300'' \<notin> active_adw_ids (snd (delegate_task example_config
        (example_env example_ids (\<lambda>n. Some ''No such file'') [])
        (example_task Map.empty ''fix it'') (example_state {})))"
proof -
  have h1: "\<not> dry_run example_config" by (simp add: example_config_def)
  have h2: "exec_result (example_env example_ids (\<lambda>n. Some ''No such file'') [])
              (length (requests (example_state {}))) = Response True ''ok''"
    by (simp add: example_env_def)
  have h3: "popen_result (example_env example_ids (\<lambda>n. Some ''No such file'') [])
              (length (popen_calls (example_state {}))) = Some ''No such file''"
    by (simp add: example_env_def)
  from delegate_task_rollback [OF h1 h2 h3, of "example_task Map.empty ''fix it''"]
  have r: "fst (delegate_task example_config
        (example_env example_ids (\<lambda>n. Some ''No such file'') [])
        (example_task Map.empty ''fix it'') (example_state {})) = False"
    by blast
  have rest: "map (\<lambda>q. args q) (requests (snd (delegate_task example_config
        (example_env example_ids (\<lambda>n. Some ''No such file'') [])
        (example_task Map.empty ''fix it'') (example_state {}))))
      = [[Plain ''101'', Plain ''In Progress'',
          JsonDict [(''adw_id'', ''a1b2c300''), (''timestamp'', ''2025-11-11T10:00:00''),
                   (''model'', ''sonnet''), (''worktree_name'', ''feat-fix-the-login-bug''),
                   (''status'', ''In progress'')]],
         [Plain ''101'', Plain ''Blocked'',
          JsonDict [(''adw_id'', ''a1b2c300''), (''error'', ''No such file''),
                    (''timestamp'', ''2025-11-11T10:00:00'')]]]
   \<and> ''a1b2c300'' \<notin> active_adw_ids (snd (delegate_task example_config
        (example_env example_ids (\<lambda>n. Some ''No such file'') [])
        (example_task Map.empty ''fix it'') (example_state {})))"
    by code_simp
  from h1 r rest show ?thesis by blast
qed

text \<open>
  C3. \<open>delegate_task\<close> draws a second identifier when the first one is in the
  in-flight set, and does not look at the second. With both identifiers in the set, the
  task is claimed and spawned under an identifier that was in the set already.
\<close>

theorem delegate_task_reuses_id:
  "''e5f6a7b8'' \<in> active_adw_ids (example_state {''a1b2c3d4'', ''e5f6a7b8''})
   \<and> fst (delegate_task example_config
        (example_env (\<lambda>n. if n = 0 then ''a1b2c3d4'' else ''e5f6a7b8'') (\<lambda>n. None) [])
        (example_task Map.empty ''fix it'') (example_state {''a1b2c3d4'', ''e5f6a7b8''})) = True
   \<and> map (\<lambda>q. args q ! 2) (requests (snd (delegate_task example_config
        (example_env (\<lambda>n. if n = 0 then ''a1b2c3d4'' else ''e5f6a7b8'') (\<lambda>n. None) [])
        (example_task Map.empty ''fix it'') (example_state {''a1b2c3d4'', ''e5f6a7b8''}))))
      = [JsonDict [(''adw_id'', ''e5f6a7b8''), (''timestamp'', ''2025-11-11T10:00:00''),
                   (''model'', ''sonnet''), (''worktree_name'', ''feat-fix-the-login-bug''),
                   (''status'', ''In progress'')]]
   \<and> map (\<lambda>argv. argv ! 1) (popen_calls (snd (delegate_task example_config
        (example_env (\<lambda>n. if n = 0 then ''a1b2c3d4'' else ''e5f6a7b8'') (\<lambda>n. None) [])
        (example_task Map.empty ''fix it'') (example_state {''a1b2c3d4'', ''e5f6a7b8''}))))
      = [''e5f6a7b8'']"
  by code_simp

text \<open>
  The spawn loop of the split monitor keeps to the ceiling by itself: in one cycle it
  calls \<open>Popen\<close> at most \<open>max_concurrent_tasks\<close> times, whatever the number
  of eligible tasks, and it sends no request.
\<close>

lemma split_dispatch_calls:
  "length (popen_calls (snd (split_dispatch E pid dry t s))) \<le> Suc (length (popen_calls s))
   \<and> requests (snd (split_dispatch E pid dry t s)) = requests s"
  by (auto simp: split_dispatch_def spawn_workflow_def make_worktree_name_def Popen_def
        generate_short_id_def Let_def split: prod.splits option.splits if_splits)

lemma split_spawn_loop_calls:
  "length (popen_calls (snd (split_spawn_loop E pid dry ts p s))) \<le> length (popen_calls s) + length ts
   \<and> requests (snd (split_spawn_loop E pid dry ts p s)) = requests s
   \<and> fst (split_spawn_loop E pid dry ts p s) \<le> p + int (length ts)"
proof (induction ts arbitrary: p s)
  case Nil
  then show ?case by simp
next
  case (Cons t ts)
  obtain ok s' where d: "split_dispatch E pid dry t s = (ok, s')" by (cases "split_dispatch E pid dry t s")
  have c: "length (popen_calls s') \<le> Suc (length (popen_calls s))" "requests s' = requests s"
    using split_dispatch_calls[of E pid dry t s] d by simp_all
  show ?case
    using Cons[of "if ok then p + 1 else p" s'] c d by (auto split: if_splits)
qed

lemma split_cycle_respects_ceiling:
  "length (popen_calls (snd (split_spawn_cycle C E pid dry el s)))
     \<le> length (popen_calls s) + nat (max_concurrent_tasks C)
   \<and> requests (snd (split_spawn_cycle C E pid dry el s)) = requests s
   \<and> fst (split_spawn_cycle C E pid dry el s) \<le> int (nat (max_concurrent_tasks C))"
  using split_spawn_loop_calls[of E pid dry "take (nat (max_concurrent_tasks C)) el" 0 s]
  by (auto simp: split_spawn_cycle_def)

text \<open>
  C2. \<open>run_once\<close> hands the maximum to the fetch as its limit and then delegates
  every eligible task of the answer. With a maximum of 3 and an answer of five eligible
  tasks it delegates five: five claims are sent and five processes are spawned.
\<close>

theorem run_once_exceeds_ceiling:
  "max_concurrent_tasks example_config = 3
   \<and> fst (run_once example_config (example_env example_ids (\<lambda>n. None) five_dicts) (example_state {})) = 5
   \<and> length (popen_calls (snd (run_once example_config (example_env example_ids (\<lambda>n. None) five_dicts) (example_state {})))) = 5
   \<and> map (\<lambda>q. (slash_command q, take 2 (args q)))
        (requests (snd (run_once example_config (example_env example_ids (\<lambda>n. None) five_dicts) (example_state {}))))
      = [(''/get_teamwork_tasks'', [Plain ''805682'', JsonList [''new'', ''to do'', ''review'']]),
         (''/update_teamwork_task'', [Plain ''101'', Plain ''In Progress'']),
         (''/update_teamwork_task'', [Plain ''102'', Plain ''In Progress'']),
         (''/update_teamwork_task'', [Plain ''103'', Plain ''In Progress'']),
         (''/update_teamwork_task'', [Plain ''104'', Plain ''In Progress'']),
         (''/update_teamwork_task'', [Plain ''105'', Plain ''In Progress''])]"
  by code_simp

section \<open>Properties of the matcher\<close>

lemma rmatch_bounds:
  "rmatch pat s i ms = Some (e, ms') \<Longrightarrow> i \<le> e \<and> e \<le> i + length s"
  by (induction pat s i ms rule: rmatch.induct) (auto split: if_splits option.splits)

lemma rmatch_star_disjoint:
  assumes "\<And>c cs i ms. p c \<Longrightarrow> rmatch r (c # cs) i ms = None"
  shows "rmatch (Star p # r) s i ms = rmatch r (dropWhile p s) (i + length (takeWhile p s)) ms"
proof (induction s arbitrary: i)
  case Nil
  then show ?case by simp
next
  case (Cons c cs)
  show ?case
  proof (cases "p c")
    case True
    have "rmatch r (c # cs) i ms = None" using True assms by simp
    with Cons[of "Suc i"] True show ?thesis by (simp split: option.splits)
  next
    case False
    then show ?thesis by simp
  qed
qed

lemma rmatch_plus_disjoint:
  assumes "\<And>c cs i ms. p c \<Longrightarrow> rmatch r (c # cs) i ms = None"
  shows "rmatch (Plus p # r) s i ms =
           (if s \<noteq> [] \<and> p (hd s)
            then rmatch r (dropWhile p s) (i + length (takeWhile p s)) ms else None)"
  using rmatch_star_disjoint[OF assms] by (cases s) simp_all

lemma rmatch_star_plus:
  assumes sub: "\<And>c. p c \<Longrightarrow> q c"
    and dis: "\<And>c cs i ms. q c \<Longrightarrow> rmatch r (c # cs) i ms = None"
  shows "rmatch (Star p # Plus q # r) s i ms = rmatch (Plus q # r) s i ms"
proof (induction s arbitrary: i)
  case Nil
  then show ?case by simp
next
  case (Cons c cs)
  note pd = rmatch_plus_disjoint[OF dis]
  show ?case
  proof (cases "p c")
    case True
    then have qc: "q c" using sub by simp
    have step: "rmatch (Star p # Plus q # r) (c # cs) i ms =
                  (case rmatch (Plus q # r) cs (Suc i) ms of
                     Some x \<Rightarrow> Some x
                   | None \<Rightarrow> rmatch (Plus q # r) (c # cs) i ms)"
      using True Cons[of "Suc i"] by (simp only: rmatch.simps if_True)
    have whole: "rmatch (Plus q # r) (c # cs) i ms =
                   rmatch r (dropWhile q cs) (Suc i + length (takeWhile q cs)) ms"
      using qc by (simp add: pd del: rmatch.simps)
    have inner: "rmatch (Plus q # r) cs (Suc i) ms =
                   (if cs \<noteq> [] \<and> q (hd cs)
                    then rmatch r (dropWhile q cs) (Suc i + length (takeWhile q cs)) ms
                    else None)"
      by (rule pd)
    show ?thesis
      unfolding step whole inner by (simp split: option.splits del: rmatch.simps)
  next
    case False
    then show ?thesis by simp
  qed
qed

text \<open>A pattern that ends with a class fails on a string without a character of the class.\<close>

lemma star_fails:
  assumes "\<And>t i ms. \<forall>c\<in>set t. \<not> q c \<Longrightarrow> rmatch r t i ms = None"
    and "\<forall>c\<in>set t. \<not> q c"
  shows "rmatch (Star p # r) t i ms = None"
  using assms(2)
proof (induction t arbitrary: i)
  case Nil
  then show ?case using assms(1)[of "[]"] by simp
next
  case (Cons c cs)
  then show ?case using assms(1)[of "c # cs"] by (simp split: option.splits)
qed

lemma rmatch_fails_on:
  "\<forall>c\<in>set t. \<not> q c \<Longrightarrow> Eol \<notin> set pre \<Longrightarrow> rmatch (pre @ [Cls q]) t i ms = None"
proof (induction pre arbitrary: t i ms)
  case Nil
  then show ?case by (cases t) simp_all
next
  case (Cons a pre)
  show ?case
  proof (cases a)
    case (Cls p)
    then show ?thesis using Cons by (cases t) simp_all
  next
    case (Star p)
    have "rmatch (Star p # (pre @ [Cls q])) t i ms = None"
      using Cons by (intro star_fails[where q = q]) simp_all
    then show ?thesis using Star by simp
  next
    case (Plus p)
    have "\<forall>c\<in>set (tl t). \<not> q c"
      using Cons.prems(1) by (cases t) simp_all
    then have "rmatch (Star p # (pre @ [Cls q])) (tl t) (Suc i) ms = None"
      using Cons by (intro star_fails[where q = q]) simp_all
    then show ?thesis using Plus by (cases t) simp_all
  next
    case Eol
    then show ?thesis using Cons by simp
  next
    case Mark
    then show ?thesis using Cons by simp
  qed
qed

lemma star_stable:
  assumes st: "\<And>s i ms. rmatch r (s @ t) i ms = rmatch r s i ms"
    and f1: "\<And>i ms. rmatch (Star p # r) t i ms = None"
    and f2: "\<And>i ms. rmatch r [] i ms = None"
  shows "rmatch (Star p # r) (s @ t) i ms = rmatch (Star p # r) s i ms"
proof (induction s arbitrary: i)
  case Nil
  then show ?case using f1 f2 by simp
next
  case (Cons c cs)
  then show ?case using st[of "c # cs" i ms] by (simp split: option.splits)
qed

text \<open>
  A pattern that ends with a class and has no anchor does not see what follows the
  subject, as long as that has no character of the class.
\<close>

lemma rmatch_stable:
  "\<forall>c\<in>set t. \<not> q c \<Longrightarrow> Eol \<notin> set pre \<Longrightarrow>
   rmatch (pre @ [Cls q]) (s @ t) i ms = rmatch (pre @ [Cls q]) s i ms"
proof (induction pre arbitrary: s i ms)
  case Nil
  then show ?case using rmatch_fails_on[of t q "[]"] by (cases s) simp_all
next
  case (Cons a pre)
  have f: "rmatch ((a # pre) @ [Cls q]) t i ms = None" for i ms
    using Cons.prems by (intro rmatch_fails_on) simp_all
  have f0: "rmatch (pre @ [Cls q]) [] i ms = None" for i ms
    using Cons.prems by (intro rmatch_fails_on) simp_all
  have ft: "rmatch (pre @ [Cls q]) t i ms = None" for i ms
    using Cons.prems by (intro rmatch_fails_on) simp_all
  have st: "rmatch (pre @ [Cls q]) (s @ t) i ms = rmatch (pre @ [Cls q]) s i ms" for s i ms
    using Cons by simp
  show ?case
  proof (cases a)
    case (Cls p)
    then show ?thesis using f[of i ms] st by (cases s) simp_all
  next
    case (Star p)
    have "rmatch (Star p # (pre @ [Cls q])) (s @ t) i ms = rmatch (Star p # (pre @ [Cls q])) s i ms"
      using st f f0 Star by (intro star_stable) simp_all
    then show ?thesis using Star by simp
  next
    case (Plus p)
    have g: "rmatch (pre @ [Cls q]) t' i' ms' = None" if "\<forall>c\<in>set t'. \<not> q c" for t' i' ms'
      using that Cons.prems(2) by (intro rmatch_fails_on) simp_all
    have fs: "rmatch (Star p # (pre @ [Cls q])) t i' ms' = None" for i' ms'
    proof (rule star_fails[where q = q])
      show "\<And>t i ms. \<forall>c\<in>set t. \<not> q c \<Longrightarrow> rmatch (pre @ [Cls q]) t i ms = None"
        using g by blast
      show "\<forall>c\<in>set t. \<not> q c" using Cons.prems by simp
    qed
    have "rmatch (Star p # (pre @ [Cls q])) (s' @ t) i' ms =
            rmatch (Star p # (pre @ [Cls q])) s' i' ms" for s' i'
      using st fs f0 by (intro star_stable) simp_all
    then show ?thesis using Plus f[of i ms] by (cases s) simp_all
  next
    case Eol
    then show ?thesis using Cons by simp
  next
    case Mark
    then show ?thesis using st by simp
  qed
qed

text \<open>Substitution: skipping, copying, and the part behind the last possible match.\<close>

lemma sub_from_drop: "sub_from pat k s = sub_from pat 0 (drop k s)"
  by (induction s arbitrary: k) (auto simp: drop_Cons' split: option.splits)

lemma sub_from_copy:
  "(\<And>u. set u \<subseteq> set s \<Longrightarrow> rmatch pat u 0 [] = None) \<Longrightarrow> sub_from pat 0 s = s"
proof (induction s)
  case Nil
  then show ?case by simp
next
  case (Cons c cs)
  have "rmatch pat (c # cs) 0 [] = None" using Cons.prems by simp
  moreover have "sub_from pat 0 cs = cs"
    using Cons.prems by (intro Cons.IH) auto
  ultimately show ?case by simp
qed

lemma sub_from_append_stable:
  assumes st: "\<And>s. s \<noteq> [] \<Longrightarrow> rmatch pat (s @ t) 0 [] = rmatch pat s 0 []"
    and cp: "sub_from pat 0 t = t"
  shows "k \<le> length b \<Longrightarrow> sub_from pat k (b @ t) = sub_from pat k b @ t"
proof (induction b arbitrary: k)
  case Nil
  then show ?case using cp by simp
next
  case (Cons c cs)
  show ?case
  proof (cases "0 < k")
    case True
    then show ?thesis using Cons by simp
  next
    case False
    have eq: "rmatch pat (c # cs @ t) 0 [] = rmatch pat (c # cs) 0 []"
      using st[of "c # cs"] by simp
    show ?thesis
    proof (cases "rmatch pat (c # cs) 0 []")
      case None
      then show ?thesis using False eq Cons.IH[of 0] by simp
    next
      case (Some x)
      obtain e ms where x: "x = (e, ms)" by (cases x)
      have "e \<le> Suc (length cs)" using rmatch_bounds[of pat "c # cs" 0 "[]" e ms] Some x by simp
      then show ?thesis using False eq Some x Cons.IH[of 0] Cons.IH[of "e - 1"] by simp
    qed
  qed
qed


section \<open>Properties of the tag extractor\<close>

lemma colon_not_word: "is_word c \<Longrightarrow> c \<noteq> CHR '':''"
  by (auto simp: is_word_def)

lemma space_not_brace: "is_space c \<Longrightarrow> c \<noteq> CHR ''}''"
  by (auto simp: is_space_def)

lemma tag_value_match:
  assumes "v \<noteq> []" "CHR ''}'' \<notin> set v"
  shows "rmatch [Star is_space, Plus (\<lambda>c. c \<noteq> CHR ''}''), lit CHR ''}'', lit CHR ''}'']
           (v @ ''}}'' @ rest) i ms = Some (i + length v + 2, ms)"
proof -
  have a: "rmatch [Star is_space, Plus (\<lambda>c. c \<noteq> CHR ''}''), lit CHR ''}'', lit CHR ''}''] s i ms =
        rmatch [Plus (\<lambda>c. c \<noteq> CHR ''}''), lit CHR ''}'', lit CHR ''}''] s i ms" for s
    by (rule rmatch_star_plus) (auto simp: lit_def dest: space_not_brace)
  have b: "rmatch [Plus (\<lambda>c. c \<noteq> CHR ''}''), lit CHR ''}'', lit CHR ''}''] s i ms =
        (if s \<noteq> [] \<and> hd s \<noteq> CHR ''}''
         then rmatch [lit CHR ''}'', lit CHR ''}''] (dropWhile (\<lambda>c. c \<noteq> CHR ''}'') s)
                (i + length (takeWhile (\<lambda>c. c \<noteq> CHR ''}'') s)) ms else None)" for s
    by (rule rmatch_plus_disjoint) (auto simp: lit_def)
  have nv: "\<forall>x\<in>set v. x \<noteq> CHR ''}''" using assms by auto
  have d: "dropWhile (\<lambda>c. c \<noteq> CHR ''}'') (v @ ''}}'' @ rest) = ''}}'' @ rest"
    using nv by (simp add: dropWhile_append2)
  have t: "takeWhile (\<lambda>c. c \<noteq> CHR ''}'') (v @ ''}}'' @ rest) = v"
    using nv by (simp add: takeWhile_append2)
  have h: "hd (v @ ''}}'' @ rest) \<noteq> CHR ''}''" using assms by (cases v) auto
  show ?thesis unfolding a b d t using assms h by (simp add: lit_def)
qed

lemma tag_match:
  assumes "wf_seg (Tag k v)"
  shows "rmatch tag_re (render_seg (Tag k v) @ rest) i ms = Some (i + length (render_seg (Tag k v)), ms)"
proof -
  let ?r = "[lit CHR '':'', Star is_space, Plus (\<lambda>c. c \<noteq> CHR ''}''), lit CHR ''}'', lit CHR ''}'']"
  have b: "rmatch (Plus is_word # ?r) s j ms =
        (if s \<noteq> [] \<and> is_word (hd s)
         then rmatch ?r (dropWhile is_word s) (j + length (takeWhile is_word s)) ms else None)" for s j
    by (rule rmatch_plus_disjoint) (auto simp: lit_def dest: colon_not_word)
  have w: "\<forall>c\<in>set k. is_word c" "k \<noteq> []" "v \<noteq> []" "CHR ''}'' \<notin> set v"
    using assms by (auto simp: list_all_iff)
  have nw: "\<not> is_word CHR '':''" using colon_not_word by blast
  have d: "dropWhile is_word (k @ '':'' @ v @ ''}}'' @ rest) = '':'' @ v @ ''}}'' @ rest"
    using w nw by (simp add: dropWhile_append3)
  have t: "takeWhile is_word (k @ '':'' @ v @ ''}}'' @ rest) = k"
    using w nw by (simp add: takeWhile_append2)
  have h: "is_word (hd (k @ '':'' @ v @ ''}}'' @ rest))" using w by (cases k) auto
  have "rmatch tag_re (''{{'' @ k @ '':'' @ v @ ''}}'' @ rest) i ms =
        rmatch (Plus is_word # ?r) (k @ '':'' @ v @ ''}}'' @ rest) (i + 2) ms"
    by (simp add: tag_re_def lit_def)
  also have "\<dots> = rmatch ?r ('':'' @ v @ ''}}'' @ rest) (i + 2 + length k) ms"
    unfolding b d t using w h by simp
  also have "\<dots> = rmatch [Star is_space, Plus (\<lambda>c. c \<noteq> CHR ''}''), lit CHR ''}'', lit CHR ''}'']
                      (v @ ''}}'' @ rest) (i + 3 + length k) ms"
    by (simp add: lit_def eval_nat_numeral)
  also have "\<dots> = Some (i + 3 + length k + length v + 2, ms)"
    using tag_value_match[OF w(3,4)] by simp
  finally show ?thesis by simp
qed

lemma tag_no_match: "c \<noteq> CHR ''{'' \<Longrightarrow> rmatch tag_re (c # cs) i ms = None"
  by (simp add: tag_re_def lit_def)

lemma remove_tags_text:
  "CHR ''{'' \<notin> set u \<Longrightarrow> sub_from tag_re 0 (u @ z) = u @ sub_from tag_re 0 z"
  by (induction u) (auto simp: tag_no_match)

lemma remove_tags_tag:
  assumes "wf_seg (Tag k v)"
  shows "sub_from tag_re 0 (render_seg (Tag k v) @ z) = sub_from tag_re 0 z"
proof -
  define cs where "cs = ''{'' @ k @ '':'' @ v @ ''}}''"
  have r: "render_seg (Tag k v) = CHR ''{'' # cs" by (simp add: cs_def)
  have m: "rmatch tag_re (CHR ''{'' # cs @ z) 0 [] = Some (Suc (length cs), [])"
    using tag_match[OF assms, of z 0 "[]"] unfolding r by simp
  have "sub_from tag_re 0 (CHR ''{'' # cs @ z) = sub_from tag_re (length cs) (cs @ z)"
    using m by simp
  also have "\<dots> = sub_from tag_re 0 z" by (subst sub_from_drop) simp
  finally show ?thesis unfolding r by simp
qed

lemma remove_tags_render:
  "\<forall>g\<in>set segs. wf_seg g \<Longrightarrow>
   sub_from tag_re 0 (render segs @ z) = texts segs @ sub_from tag_re 0 z"
proof (induction segs)
  case Nil
  then show ?case by (simp add: render_def texts_def)
next
  case (Cons g segs)
  then have ih: "sub_from tag_re 0 (render segs @ z) = texts segs @ sub_from tag_re 0 z" by simp
  show ?case
  proof (cases g)
    case (Text u)
    then show ?thesis using Cons.prems ih remove_tags_text[of u "render segs @ z"]
      by (simp add: render_def texts_def)
  next
    case (Tag k v)
    then show ?thesis using Cons.prems ih remove_tags_tag[of k v "render segs @ z"]
      by (simp add: render_def texts_def)
  qed
qed

lemma set_sub_from: "set (sub_from pat k s) \<subseteq> set s"
  by (induction s arbitrary: k) (auto split: option.splits if_splits)

lemma set_py_strip: "set (py_strip s) \<subseteq> set s"
proof -
  have a: "set (py_rstrip t) \<subseteq> set t" for t
    using set_dropWhileD[of _ is_space "rev t"] by (auto simp: py_rstrip_def)
  have b: "set (py_lstrip t) \<subseteq> set t" for t
    using set_dropWhileD[of _ is_space t] by (auto simp: py_lstrip_def)
  show ?thesis unfolding py_strip_def using a[of "py_lstrip s"] b[of s] by blast
qed

lemma set_group1: "set (group1 s ms) \<subseteq> set s"
  using set_take_subset[of "ms ! 1 - ms ! 0" "drop (ms ! 0) s"] set_drop_subset[of "ms ! 0" s]
  by (auto simp: group1_def)

lemma set_extract_task_prompt:
  "set (extract_task_prompt b trg) \<subseteq> set (re_sub_empty tag_re b)"
proof -
  let ?T = "re_sub_empty tag_re b"
  have e: "set (py_strip (re_sub_empty execute_tail_re ?T)) \<subseteq> set ?T"
    using set_py_strip[of "re_sub_empty execute_tail_re ?T"] set_sub_from[of execute_tail_re 0 ?T]
    by (auto simp: re_sub_empty_def)
  have g: "set (py_strip (group1 ?T ms)) \<subseteq> set ?T" for ms
    using set_py_strip[of "group1 ?T ms"] set_group1[of ?T ms] by blast
  have p: "set (py_strip ?T) \<subseteq> set ?T" by (rule set_py_strip)
  show ?thesis
  proof (cases "trg = Some ''execute''")
    case True
    then show ?thesis using e by (simp add: extract_task_prompt_def)
  next
    case False
    show ?thesis
    proof (cases "trg = Some ''continue''")
      case True
      then show ?thesis using g p
        by (cases "re_search continue_capture_re ?T") (auto simp: extract_task_prompt_def)
    next
      case False
      then show ?thesis using \<open>trg \<noteq> Some ''execute''\<close> p by (simp add: extract_task_prompt_def)
    qed
  qed
qed

text \<open>
  For a body made of text without opening brace and of well-formed tags, removing the
  tags gives exactly the text outside the tags; without trigger the cleaned prompt is
  that text, trimmed; and with any trigger the cleaned prompt has no opening brace.
\<close>

lemma remove_tags_of_tagged_body:
  assumes "\<forall>g\<in>set segs. wf_seg g"
  shows "re_sub_empty tag_re (render segs) = texts segs
       \<and> extract_task_prompt (render segs) None = py_strip (texts segs)
       \<and> CHR ''{'' \<notin> set (extract_task_prompt (render segs) trg)"
proof -
  have r: "re_sub_empty tag_re (render segs) = texts segs"
    using remove_tags_render[OF assms, of "[]"] by (simp add: re_sub_empty_def)
  have "CHR ''{'' \<notin> set (texts segs)"
    using assms by (induction segs) (auto simp: texts_def elim: wf_seg.elims)
  then have "CHR ''{'' \<notin> set (extract_task_prompt (render segs) trg)"
    using set_extract_task_prompt[of "render segs" trg] r by auto
  moreover have "extract_task_prompt (render segs) None = py_strip (texts segs)"
    using r by (simp add: extract_task_prompt_def)
  ultimately show ?thesis using r by simp
qed

text \<open>The body of the specification: two tags and the text \<open>do the thing\<close>.\<close>

lemma remove_tags_of_example_body:
  "list_all wf_seg example_segs
   \<and> render example_segs = ''{{model: opus}} {{prototype: vite_vue}} do the thing''
   \<and> extract_task_prompt ''{{model: opus}} {{prototype: vite_vue}} do the thing'' None = ''do the thing''
   \<and> CHR ''{'' \<notin> set (extract_task_prompt ''{{model: opus}} {{prototype: vite_vue}} do the thing'' (Some ''execute''))"
proof -
  have h: "\<forall>g\<in>set example_segs. wf_seg g" by code_simp
  have r: "render example_segs = ''{{model: opus}} {{prototype: vite_vue}} do the thing''"
    by (simp add: render_def example_segs_def)
  have t: "py_strip (texts example_segs) = ''do the thing''" by code_simp
  show ?thesis
    using remove_tags_of_tagged_body[OF h, of "Some ''execute''"] h r t
    by (simp add: list_all_iff)
qed

text \<open>A body without \<open>{{\<close> has no tag to remove.\<close>

lemma tag_needs_open:
  "\<not> starts_with s ''{{'' \<Longrightarrow> rmatch tag_re s i ms = None"
proof (cases s)
  case Nil
  then show ?thesis by (simp add: tag_re_def lit_def)
next
  case (Cons a t)
  assume n: "\<not> starts_with s ''{{''"
  show ?thesis
  proof (cases t)
    case Nil
    then show ?thesis using Cons by (simp add: tag_re_def lit_def)
  next
    case (Cons b u)
    then show ?thesis using n \<open>s = a # t\<close> by (auto simp: tag_re_def lit_def)
  qed
qed

lemma remove_tags_without_open:
  "\<not> contains body ''{{'' \<Longrightarrow> re_sub_empty tag_re body = body"
  unfolding re_sub_empty_def
proof (induction body)
  case Nil
  then show ?case by simp
next
  case (Cons a body)
  then have "rmatch tag_re (a # body) 0 [] = None" by (intro tag_needs_open) simp
  then show ?case using Cons by simp
qed

text \<open>
  C7. The cleaning of \<open>extract_task_prompt\<close> misses what the specification asks and
  what its sibling \<open>get_task_prompt_for_agent\<close> does on the same bodies. A brace span
  that is not of the form \<open>{{key: value}}\<close> stays in the prompt, and removing an inner
  tag leaves a new span behind, where the sibling removes every span
  \<open>{{...}}\<close>. Only the trailing \<open>execute\<close> is removed, so that the keyword stays
  in the prompt, where the sibling removes every \<open>execute\<close>.
\<close>

theorem extract_task_prompt_keeps_span_and_keyword:
  "detect_execution_trigger ''{{note}} fix it execute'' = Some ''execute''
   \<and> extract_task_prompt ''{{note}} fix it execute'' (Some ''execute'') = ''{{note}} fix it''
   \<and> has_span (extract_task_prompt ''{{note}} fix it execute'' (Some ''execute''))
   \<and> get_task_prompt_for_agent
        (example_task Map.empty ''x'' \<lparr> description := ''{{note}} fix it execute'' \<rparr>) = ''fix it''
   \<and> detect_execution_trigger ''{{a{{b: c}}: d}} fix it execute'' = Some ''execute''
   \<and> extract_task_prompt ''{{a{{b: c}}: d}} fix it execute'' (Some ''execute'') = ''{{a: d}} fix it''
   \<and> has_span (extract_task_prompt ''{{a{{b: c}}: d}} fix it execute'' (Some ''execute''))
   \<and> \<not> has_span (get_task_prompt_for_agent
        (example_task Map.empty ''x'' \<lparr> description := ''{{a{{b: c}}: d}} fix it execute'' \<rparr>))
   \<and> detect_execution_trigger ''run execute now execute'' = Some ''execute''
   \<and> extract_task_prompt ''run execute now execute'' (Some ''execute'') = ''run execute now''
   \<and> contains (extract_task_prompt ''run execute now execute'' (Some ''execute'')) ''execute''
   \<and> get_task_prompt_for_agent
        (example_task Map.empty ''x'' \<lparr> description := ''run execute now execute'' \<rparr>) = ''run  now''"
  by code_simp

section \<open>Properties of the execute trigger\<close>

lemma lower_char_space: "is_space c \<Longrightarrow> lower_char c = c"
  by (auto simp: is_space_def lower_char_def Let_def)

lemma is_space_newline: "is_space (CHR 0x0A)"
  by (simp add: is_space_def)

lemma letters_not_space:
  "lower_char c \<in> set ''executecontinue'' \<Longrightarrow> \<not> is_space c"
  using lower_char_space[of c] by (auto simp: is_space_def)

lemma letters_not_special:
  "lower_char c \<in> set ''executecontinue'' \<Longrightarrow> c \<noteq> CHR ''}'' \<and> c \<noteq> CHR ''{'' \<and> c \<noteq> CHR ''-''"
  by (auto simp: lower_char_def Let_def)

text \<open>A word under \<open>IGNORECASE\<close>.\<close>

lemma rmatch_ci:
  "rmatch (map ci w @ r) s i ms =
     (if length w \<le> length s \<and> py_lower (take (length w) s) = w
      then rmatch r (drop (length w) s) (i + length w) ms else None)"
proof (induction w arbitrary: s i)
  case Nil
  then show ?case by (simp add: py_lower_def)
next
  case (Cons a w)
  show ?case
  proof (cases s)
    case Nil
    then show ?thesis by (simp add: ci_def)
  next
    case (Cons c cs)
    then show ?thesis using Cons.IH[of cs "Suc i"] by (auto simp: ci_def py_lower_def)
  qed
qed

lemma rmatch_star_eol:
  "rmatch [Star is_space, Eol] s i ms =
     (if list_all is_space s then Some (i + length s, ms) else None)"
proof (induction s arbitrary: i)
  case Nil
  then show ?case by simp
next
  case (Cons c cs)
  show ?case
  proof (cases "is_space c")
    case True
    then show ?thesis using Cons[of "Suc i"] by (cases cs) auto
  next
    case False
    then show ?thesis using is_space_newline by auto
  qed
qed

lemma rmatch_word_tail:
  assumes ns: "\<And>c. lower_char c \<in> set w \<Longrightarrow> \<not> is_space c" and ne: "w \<noteq> []"
  shows "rmatch (Star is_space # map ci w @ [Star is_space, Eol]) s i ms =
     (let s1 = dropWhile is_space s in
      if length w \<le> length s1 \<and> py_lower (take (length w) s1) = w
         \<and> list_all is_space (drop (length w) s1)
      then Some (i + length s, ms) else None)"
proof -
  let ?r = "map ci w @ [Star is_space, Eol]"
  have dis: "rmatch ?r (c # cs) j ms' = None" if "is_space c" for c cs j ms'
  proof -
    obtain a w' where w: "w = a # w'" using ne by (cases w) auto
    have "lower_char c \<noteq> a" using ns[of c] that w by auto
    then show ?thesis by (simp add: w ci_def)
  qed
  have l: "length (takeWhile is_space s) + length (dropWhile is_space s) = length s"
    by (metis length_append takeWhile_dropWhile_id)
  have "rmatch (Star is_space # ?r) s i ms =
          rmatch ?r (dropWhile is_space s) (i + length (takeWhile is_space s)) ms"
    using dis by (rule rmatch_star_disjoint)
  also have "\<dots> = (if length w \<le> length (dropWhile is_space s)
                        \<and> py_lower (take (length w) (dropWhile is_space s)) = w
                     then rmatch [Star is_space, Eol] (drop (length w) (dropWhile is_space s))
                            (i + length (takeWhile is_space s) + length w) ms
                     else None)"
    by (rule rmatch_ci)
  also have "\<dots> = (let s1 = dropWhile is_space s in
      if length w \<le> length s1 \<and> py_lower (take (length w) s1) = w
         \<and> list_all is_space (drop (length w) s1)
      then Some (i + length s, ms) else None)"
    using l by (auto simp: rmatch_star_eol Let_def simp del: rmatch.simps)
  finally show ?thesis .
qed

text \<open>Trimming.\<close>

lemma lstrip_skip:
  "list_all is_space l \<Longrightarrow> z \<noteq> [] \<Longrightarrow> \<not> is_space (hd z) \<Longrightarrow> py_lstrip (l @ z) = z"
  by (cases z) (auto simp: py_lstrip_def list_all_iff dropWhile_append2)

lemma rstrip_skip:
  "list_all is_space r \<Longrightarrow> z \<noteq> [] \<Longrightarrow> \<not> is_space (last z) \<Longrightarrow> py_rstrip (z @ r) = z"
proof -
  assume a: "list_all is_space r" "z \<noteq> []" "\<not> is_space (last z)"
  have "dropWhile is_space (rev r @ rev z) = dropWhile is_space (rev z)"
    using a(1) by (intro dropWhile_append2) (simp add: list_all_iff)
  also have "\<dots> = rev z" using a(2,3) by (cases "rev z") (auto simp: hd_rev last_rev)
  finally show ?thesis by (simp add: py_rstrip_def)
qed

lemma strip_all_space:
  "list_all is_space y \<Longrightarrow> py_lstrip y = [] \<and> py_rstrip y = []"
  by (auto simp: py_lstrip_def py_rstrip_def list_all_iff)

lemma rstrip_decomp: "\<exists>ws. list_all is_space ws \<and> s = py_rstrip s @ ws"
proof -
  have "rev s = takeWhile is_space (rev s) @ dropWhile is_space (rev s)" by simp
  then have "s = rev (dropWhile is_space (rev s)) @ rev (takeWhile is_space (rev s))"
    by (metis rev_append rev_rev_ident)
  moreover have "list_all is_space (rev (takeWhile is_space (rev s)))"
    by (auto simp: list_all_iff dest: set_takeWhileD)
  ultimately show ?thesis unfolding py_rstrip_def by blast
qed

lemma lstrip_decomp: "\<exists>l. list_all is_space l \<and> s = l @ py_lstrip s"
proof -
  have "s = takeWhile is_space s @ dropWhile is_space s" by simp
  moreover have "list_all is_space (takeWhile is_space s)"
    by (auto simp: list_all_iff dest: set_takeWhileD)
  ultimately show ?thesis unfolding py_lstrip_def by blast
qed

lemma lstrip_head: "py_lstrip s \<noteq> [] \<Longrightarrow> \<not> is_space (hd (py_lstrip s))"
  unfolding py_lstrip_def by (metis hd_dropWhile)

lemma rstrip_last: "py_rstrip s \<noteq> [] \<Longrightarrow> \<not> is_space (last (py_rstrip s))"
  unfolding py_rstrip_def by (metis hd_dropWhile last_rev rev_is_Nil_conv)

lemma strip_core:
  assumes "\<not> list_all is_space y"
  shows "\<exists>l core r. y = l @ core @ r \<and> list_all is_space l \<and> list_all is_space r
           \<and> core \<noteq> [] \<and> \<not> is_space (hd core) \<and> \<not> is_space (last core)"
proof -
  obtain l where l: "list_all is_space l" "y = l @ py_lstrip y" using lstrip_decomp by blast
  obtain r where r: "list_all is_space r" "py_lstrip y = py_rstrip (py_lstrip y) @ r"
    using rstrip_decomp by blast
  let ?c = "py_rstrip (py_lstrip y)"
  have ne: "py_lstrip y \<noteq> []" using assms l by (metis append_Nil2)
  have cne: "?c \<noteq> []"
  proof
    assume "?c = []"
    then have "py_lstrip y = r" using r(2) by simp
    then have "is_space (hd (py_lstrip y))" using r(1) ne by (cases r) auto
    then show False using lstrip_head[OF ne] by simp
  qed
  have "hd ?c = hd (py_lstrip y)" using r(2) cne by (metis hd_append2)
  then have h: "\<not> is_space (hd ?c)" using lstrip_head[OF ne] by simp
  have "y = l @ ?c @ r" using l(2) r(2) by simp
  then show ?thesis using l(1) r(1) cne h rstrip_last[OF cne] by blast
qed

lemma py_rstrip_Cons:
  "py_rstrip (c # y) = (if list_all is_space (c # y) then [] else c # py_rstrip y)"
  by (auto simp: py_rstrip_def dropWhile_append list_all_iff)

text \<open>The pattern \<open>\s*word\s*$\<close> on a subject that ends with the word and blanks.\<close>

lemma word_tail_match:
  assumes ns: "\<And>c. lower_char c \<in> set w \<Longrightarrow> \<not> is_space c" and ne: "w \<noteq> []"
    and e: "py_lower e = w" and ws: "list_all is_space ws"
  shows "rmatch (Star is_space # map ci w @ [Star is_space, Eol]) (y @ e @ ws) i ms =
           (if list_all is_space y then Some (i + length (y @ e @ ws), ms) else None)"
proof -
  have le: "length e = length w" using e by (auto simp: py_lower_def)
  have ene: "e \<noteq> []" using le ne by auto
  have ens: "\<not> is_space c" if "c \<in> set e" for c
    using that e ns[of c] by (auto simp: py_lower_def)
  have hd_e: "\<not> is_space (hd e)" using ens ene by simp
  have last_e: "\<not> is_space (last e)" using ens ene by simp
  show ?thesis
  proof (cases "list_all is_space y")
    case True
    have "dropWhile is_space (y @ e @ ws) = e @ ws"
      using lstrip_skip[OF True, of "e @ ws"] ene hd_e by (simp add: py_lstrip_def)
    then show ?thesis using True le e ws
      by (simp add: rmatch_word_tail[OF ns ne] Let_def del: rmatch.simps)
  next
    case False
    then obtain x where x: "x \<in> set y" "\<not> is_space x" by (auto simp: list_all_iff)
    let ?y = "dropWhile is_space y"
    have d: "dropWhile is_space (y @ e @ ws) = ?y @ e @ ws"
      using x by (simp add: dropWhile_append1)
    have yne: "?y \<noteq> []" using x by (auto simp: dropWhile_eq_Nil_conv)
    have lt: "length w < length (?y @ e)" using yne le by (cases ?y) auto
    have "drop (length w) (?y @ e @ ws) = drop (length w) (?y @ e) @ ws"
      using lt by simp
    moreover have "last (drop (length w) (?y @ e)) = last e"
    proof -
      have "last (drop (length w) (?y @ e)) = last (?y @ e)" using lt by (rule last_drop)
      then show ?thesis using ene by simp
    qed
    moreover have "drop (length w) (?y @ e) \<noteq> []"
      using lt by (simp del: drop_append length_append)
    ultimately have "last e \<in> set (drop (length w) (?y @ e @ ws))"
      by (metis Un_iff last_in_set set_append)
    then have "\<not> list_all is_space (drop (length w) (?y @ e @ ws))"
      using last_e by (auto simp: list_all_iff)
    then show ?thesis using False d
      by (simp add: rmatch_word_tail[OF ns ne] Let_def del: rmatch.simps)
  qed
qed

lemma sub_word_tail:
  assumes ns: "\<And>c. lower_char c \<in> set w \<Longrightarrow> \<not> is_space c" and ne: "w \<noteq> []"
    and e: "py_lower e = w" and ws: "list_all is_space ws"
  shows "sub_from (Star is_space # map ci w @ [Star is_space, Eol]) 0 (y @ e @ ws) = py_rstrip y"
proof (induction y)
  case Nil
  have ene: "e \<noteq> []" using e ne by (auto simp: py_lower_def)
  then obtain c cs where c: "e @ ws = c # cs" by (cases e) auto
  have "rmatch (Star is_space # map ci w @ [Star is_space, Eol]) (c # cs) 0 [] =
          Some (Suc (length cs), [])"
    using word_tail_match[OF ns ne e ws, of "[]" 0 "[]"] c by simp
  then have "sub_from (Star is_space # map ci w @ [Star is_space, Eol]) 0 (c # cs) =
          sub_from (Star is_space # map ci w @ [Star is_space, Eol]) (length cs) cs"
    by (simp del: rmatch.simps)
  also have "\<dots> = []" by (subst sub_from_drop) simp
  finally show ?case using c by (simp add: py_rstrip_def)
next
  case (Cons c y)
  let ?p = "Star is_space # map ci w @ [Star is_space, Eol]"
  let ?cs = "y @ e @ ws"
  have m: "rmatch ?p (c # ?cs) 0 [] =
          (if list_all is_space (c # y) then Some (Suc (length ?cs), []) else None)"
    using word_tail_match[OF ns ne e ws, of "c # y" 0 "[]"] by simp
  show ?case
  proof (cases "list_all is_space (c # y)")
    case True
    have "rmatch ?p (c # ?cs) 0 [] = Some (Suc (length ?cs), [])"
      using m True by (simp only: if_True)
    then have "sub_from ?p 0 (c # ?cs) = sub_from ?p (length ?cs) ?cs"
      by (simp del: rmatch.simps)
    also have "\<dots> = []" by (subst sub_from_drop) simp
    finally show ?thesis using True py_rstrip_Cons[of c y] by simp
  next
    case False
    have "rmatch ?p (c # ?cs) 0 [] = None"
      using m False by (simp only: if_False)
    then have "sub_from ?p 0 (c # ?cs) = c # sub_from ?p 0 ?cs"
      by (simp del: rmatch.simps)
    then show ?thesis using False Cons py_rstrip_Cons[of c y] by simp
  qed
qed

text \<open>A body whose trimmed text ends, in some letter case, with a word.\<close>

lemma endswith_strip_decomp:
  assumes "endswith (py_lower (py_strip body)) w"
  shows "\<exists>b e ws. body = b @ e @ ws \<and> py_lower e = w \<and> list_all is_space ws"
proof -
  let ?S = "py_strip body"
  let ?n = "length ?S - length w"
  have le: "length w \<le> length ?S" and d: "drop ?n (py_lower ?S) = w"
    using assms by (auto simp: endswith_def py_lower_def)
  have e: "py_lower (drop ?n ?S) = w" using d by (simp add: py_lower_def drop_map)
  obtain ws where ws: "list_all is_space ws" "py_lstrip body = ?S @ ws"
    using rstrip_decomp[of "py_lstrip body"] by (auto simp: py_strip_def)
  obtain l where l: "body = l @ py_lstrip body" using lstrip_decomp[of body] by blast
  have "body = (l @ take ?n ?S) @ drop ?n ?S @ ws"
    using l ws(2) by (metis append.assoc append_take_drop_id)
  then show ?thesis using e ws(1) by blast
qed

lemma tags_before_tail:
  assumes "CHR ''}'' \<notin> set t"
  shows "sub_from tag_re 0 (b @ t) = sub_from tag_re 0 b @ t"
proof -
  let ?pre = "[lit CHR ''{'', lit CHR ''{'', Plus is_word, lit CHR '':'', Star is_space,
               Plus (\<lambda>c. c \<noteq> CHR ''}''), lit CHR ''}'']"
  have p: "tag_re = ?pre @ [Cls (\<lambda>x. x = CHR ''}'')]" by (simp add: tag_re_def lit_def)
  have ne: "Eol \<notin> set ?pre" by (simp add: lit_def)
  have st: "rmatch tag_re (s @ t) 0 [] = rmatch tag_re s 0 []" for s
    unfolding p using assms ne by (intro rmatch_stable) auto
  have cp: "sub_from tag_re 0 t = t"
  proof (rule sub_from_copy)
    fix u assume "set u \<subseteq> set t"
    then have "\<forall>c\<in>set u. \<not> c = CHR ''}''" using assms by auto
    then show "rmatch tag_re u 0 [] = None"
      unfolding p using ne by (intro rmatch_fails_on) auto
  qed
  show ?thesis using sub_from_append_stable[of tag_re t 0 b] st cp by simp
qed

lemma strip_before_word:
  assumes e: "e \<noteq> []" "\<forall>c\<in>set e. \<not> is_space c" and ws: "list_all is_space ws"
  shows "\<exists>X. py_strip (y @ e @ ws) = X @ e \<and> py_strip (py_rstrip y) = py_strip X"
proof -
  have hd_e: "\<not> is_space (hd e)" and last_e: "\<not> is_space (last e)" using e by auto
  show ?thesis
  proof (cases "list_all is_space y")
    case True
    have "py_lstrip (y @ e @ ws) = e @ ws"
      using lstrip_skip[OF True, of "e @ ws"] e(1) hd_e by simp
    moreover have "py_rstrip (e @ ws) = e" using rstrip_skip[OF ws e(1) last_e] .
    ultimately have "py_strip (y @ e @ ws) = [] @ e" by (simp add: py_strip_def)
    moreover have "py_strip (py_rstrip y) = py_strip []"
      using strip_all_space[OF True] by simp
    ultimately show ?thesis by blast
  next
    case False
    then obtain l core r where c: "y = l @ core @ r" "list_all is_space l" "list_all is_space r"
        "core \<noteq> []" "\<not> is_space (hd core)" "\<not> is_space (last core)"
      using strip_core by blast
    have nil: "list_all is_space ([]::string)" by simp
    have a1: "py_lstrip (y @ e @ ws) = core @ r @ e @ ws"
      using lstrip_skip[OF c(2), of "core @ r @ e @ ws"] c(1,4,5) by simp
    have a2: "py_rstrip ((core @ r @ e) @ ws) = core @ r @ e"
      using e(1) last_e by (intro rstrip_skip[OF ws]) simp_all
    have s1: "py_strip (y @ e @ ws) = (core @ r) @ e" using a1 a2 by (simp add: py_strip_def)
    have b1: "py_rstrip ((l @ core) @ r) = l @ core"
      using c(4,6) by (intro rstrip_skip[OF c(3)]) simp_all
    have b2: "py_lstrip (l @ core) = core" using lstrip_skip[OF c(2,4,5)] .
    have b3: "py_rstrip (core @ []) = core" using rstrip_skip[OF nil c(4,6)] .
    have s2: "py_strip (py_rstrip y) = core" using b1 b2 b3 c(1) by (simp add: py_strip_def)
    have d1: "py_lstrip ([] @ core @ r) = core @ r"
      using c(4,5) by (intro lstrip_skip[OF nil]) simp_all
    have d2: "py_rstrip (core @ r) = core" using rstrip_skip[OF c(3,4,6)] .
    have s3: "py_strip (core @ r) = core" using d1 d2 by (simp add: py_strip_def)
    show ?thesis using s1 s2 s3 by metis
  qed
qed

text \<open>
  C5, as the specification states it, fails: \<open>detect_execution_trigger\<close> compares
  the end of the trimmed body with the lower-case literal \<open>execute\<close>, so that a
  body that ends with \<open>EXECUTE\<close> has no trigger.
\<close>

theorem execute_trigger_counterexample:
  "endswith (py_lower (py_strip ''run the tests EXECUTE'')) ''execute''
   \<and> detect_execution_trigger ''run the tests EXECUTE'' = None"
  by code_simp

text \<open>
  C5, amended. For every body whose trimmed text ends with the lower-case word
  \<open>execute\<close> the detected trigger is \<open>execute\<close>. For every body whose trimmed
  text ends with \<open>execute\<close> in any letter case, the cleaned prompt for the trigger
  \<open>execute\<close> is the trimmed tag-free body without that final token, trimmed again.
\<close>

theorem execute_trigger_and_prompt:
  "(endswith (py_strip body) ''execute'' \<longrightarrow> detect_execution_trigger body = Some ''execute'')
   \<and> (endswith (py_lower (py_strip body)) ''execute'' \<longrightarrow>
        (\<exists>X e. py_strip (re_sub_empty tag_re body) = X @ e \<and> py_lower e = ''execute''
               \<and> extract_task_prompt body (Some ''execute'') = py_strip X))"
proof (intro conjI impI)
  assume "endswith (py_strip body) ''execute''"
  then show "detect_execution_trigger body = Some ''execute''"
    by (simp add: detect_execution_trigger_def)
next
  assume "endswith (py_lower (py_strip body)) ''execute''"
  then obtain b e ws where d: "body = b @ e @ ws" "py_lower e = ''execute''" "list_all is_space ws"
    using endswith_strip_decomp by blast
  have ec: "lower_char c \<in> set ''executecontinue''" if "c \<in> set e" for c
  proof -
    have "lower_char c \<in> set (py_lower e)" using that by (simp add: py_lower_def)
    then show ?thesis unfolding d(2) by auto
  qed
  have ens: "\<forall>c\<in>set e. \<not> is_space c" using ec letters_not_space by blast
  have ene: "e \<noteq> []" using d(2) by (auto simp: py_lower_def)
  have nb: "CHR ''}'' \<notin> set (e @ ws)"
  proof
    assume "CHR ''}'' \<in> set (e @ ws)"
    then consider "CHR ''}'' \<in> set e" | "CHR ''}'' \<in> set ws" by auto
    then show False
    proof cases
      case 1
      then show False using letters_not_special[OF ec[OF 1]] by simp
    next
      case 2
      then have "is_space CHR ''}''" using d(3) by (simp add: list_all_iff)
      then show False using space_not_brace by blast
    qed
  qed
  let ?Y = "sub_from tag_re 0 b"
  have T: "re_sub_empty tag_re body = ?Y @ e @ ws"
    using tags_before_tail[OF nb, of b] d(1) by (simp add: re_sub_empty_def)
  have ns: "\<not> is_space c" if "lower_char c \<in> set ''execute''" for c
    using that letters_not_space[of c] by auto
  have "re_sub_empty execute_tail_re (?Y @ e @ ws) = py_rstrip ?Y"
    unfolding re_sub_empty_def execute_tail_re_def
    using d(2,3) ns by (intro sub_word_tail) auto
  then have r: "extract_task_prompt body (Some ''execute'') = py_strip (py_rstrip ?Y)"
    using T by (simp add: extract_task_prompt_def)
  obtain X where "py_strip (?Y @ e @ ws) = X @ e" "py_strip (py_rstrip ?Y) = py_strip X"
    using strip_before_word[OF ene ens d(3), of ?Y] by blast
  then show "\<exists>X e. py_strip (re_sub_empty tag_re body) = X @ e \<and> py_lower e = ''execute''
               \<and> extract_task_prompt body (Some ''execute'') = py_strip X"
    using T r d(2) by auto
qed

text \<open>
  A body with a tag and the lower-case trigger, and a body with a capitalised trigger
  followed by a blank.
\<close>

theorem execute_trigger_and_prompt_witness:
  "endswith (py_strip ''{{model: opus}} refactor the parser execute'') ''execute''
   \<and> detect_execution_trigger ''{{model: opus}} refactor the parser execute'' = Some ''execute''
   \<and> endswith (py_lower (py_strip ''refactor the parser Execute '')) ''execute''
   \<and> extract_task_prompt ''{{model: opus}} refactor the parser execute'' (Some ''execute'')
       = ''refactor the parser''
   \<and> extract_task_prompt ''refactor the parser Execute '' (Some ''execute'')
       = ''refactor the parser''"
proof -
  have h1: "endswith (py_strip ''{{model: opus}} refactor the parser execute'') ''execute''"
    by code_simp
  have h2: "endswith (py_lower (py_strip ''refactor the parser Execute '')) ''execute''"
    by code_simp
  have d: "detect_execution_trigger ''{{model: opus}} refactor the parser execute'' = Some ''execute''"
    using execute_trigger_and_prompt[of "''{{model: opus}} refactor the parser execute''"] h1
    by blast
  have x: "extract_task_prompt ''{{model: opus}} refactor the parser execute'' (Some ''execute'')
       = ''refactor the parser''
     \<and> extract_task_prompt ''refactor the parser Execute '' (Some ''execute'')
       = ''refactor the parser''"
    by code_simp
  show ?thesis using h1 h2 d x by blast
qed

section \<open>Properties of the continue trigger\<close>

text \<open>Searching.\<close>

lemma search_from_found:
  "rmatch pat s (i + length u) [] \<noteq> None \<Longrightarrow> search_from pat (u @ s) i \<noteq> None"
proof (induction u arbitrary: i)
  case Nil
  then show ?case by (cases s) (auto split: option.splits)
next
  case (Cons a u)
  then show ?case by (auto split: option.splits)
qed

lemma search_from_skip:
  assumes "\<And>u1 u2 j. u = u1 @ u2 \<Longrightarrow> u2 \<noteq> [] \<Longrightarrow> rmatch pat (u2 @ s) j [] = None"
  shows "search_from pat (u @ s) i = search_from pat s (i + length u)"
  using assms
proof (induction u arbitrary: i)
  case Nil
  then show ?case by simp
next
  case (Cons a u)
  have "rmatch pat ((a # u) @ s) i [] = None" using Cons.prems[of "[]" "a # u" i] by simp
  moreover have "search_from pat (u @ s) (Suc i) = search_from pat s (Suc i + length u)"
  proof (rule Cons.IH)
    fix u1 u2 j assume "u = u1 @ u2" "u2 \<noteq> []"
    then show "rmatch pat (u2 @ s) j [] = None" using Cons.prems[of "a # u1" u2 j] by simp
  qed
  ultimately show ?case by simp
qed

lemma search_from_here:
  "rmatch pat s i [] = Some (e, ms) \<Longrightarrow> search_from pat s i = Some (i, e, ms)"
  by (cases s) auto

text \<open>Greedy repetitions that can give back.\<close>

lemma rmatch_star_only: "rmatch [Star p] s i ms \<noteq> None"
  by (induction s arbitrary: i) (auto split: option.splits)

lemma rmatch_star_skip:
  "rmatch r s i ms \<noteq> None \<Longrightarrow> rmatch (Star p # r) s i ms \<noteq> None"
  by (cases s) (auto split: option.splits)

lemma rmatch_star_prefix:
  "list_all p u \<Longrightarrow> rmatch r s (i + length u) ms \<noteq> None \<Longrightarrow>
   rmatch (Star p # r) (u @ s) i ms \<noteq> None"
proof (induction u arbitrary: i)
  case Nil
  then show ?case using rmatch_star_skip[of r s i ms p] by simp
next
  case (Cons a u)
  then have "rmatch (Star p # r) (u @ s) (Suc i) ms \<noteq> None" by simp
  then show ?case using Cons.prems by (auto split: option.splits)
qed

lemma rmatch_blank_then_text:
  assumes "\<exists>x\<in>set s. x \<noteq> CHR 0x0A"
  shows "rmatch [Star is_space, Plus (\<lambda>c. c \<noteq> CHR 0x0A)] s i ms \<noteq> None"
proof -
  let ?u = "takeWhile (\<lambda>c. c = CHR 0x0A) s"
  let ?v = "dropWhile (\<lambda>c. c = CHR 0x0A) s"
  have sv: "s = ?u @ ?v" by simp
  have vne: "?v \<noteq> []" using assms by (auto simp: dropWhile_eq_Nil_conv)
  then obtain x v where v: "?v = x # v" by (cases ?v) auto
  have x: "x \<noteq> CHR 0x0A" using hd_dropWhile[OF vne] v by simp
  have u: "list_all is_space ?u"
    using is_space_newline by (auto simp: list_all_iff dest: set_takeWhileD)
  have "rmatch [Plus (\<lambda>c. c \<noteq> CHR 0x0A)] (x # v) (i + length ?u) ms \<noteq> None"
    using x rmatch_star_only[of "\<lambda>c. c \<noteq> CHR 0x0A" v] by simp
  then have "rmatch [Star is_space, Plus (\<lambda>c. c \<noteq> CHR 0x0A)] (?u @ x # v) i ms \<noteq> None"
    using u by (intro rmatch_star_prefix)
  then show ?thesis using sv v by metis
qed

lemma rmatch_blank_hyphen:
  "rmatch (Star is_space # lit CHR ''-'' # r) s i ms =
     (case dropWhile is_space s of
        [] \<Rightarrow> None
      | c # s' \<Rightarrow> if c = CHR ''-'' then rmatch r s' (Suc (i + length (takeWhile is_space s))) ms
                  else None)"
proof -
  have "rmatch (lit CHR ''-'' # r) (c # cs) j ms' = None" if "is_space c" for c cs j ms'
    using that by (auto simp: lit_def is_space_def)
  then have e: "rmatch (Star is_space # lit CHR ''-'' # r) s i ms =
          rmatch (lit CHR ''-'' # r) (dropWhile is_space s) (i + length (takeWhile is_space s)) ms"
    by (rule rmatch_star_disjoint)
  have h: "rmatch (lit CHR ''-'' # r) t j ms =
          (case t of [] \<Rightarrow> None
           | c # s' \<Rightarrow> if c = CHR ''-'' then rmatch r s' (Suc j) ms else None)" for t j
    by (cases t) (simp_all add: lit_def)
  show ?thesis unfolding e by (simp only: h add_Suc_right)
qed

text \<open>The detection pattern at an occurrence of the word, the hyphen and a text.\<close>

lemma detect_match:
  assumes c: "py_lower c = w" and ws: "list_all is_space ws1"
    and r: "\<exists>x\<in>set r. x \<noteq> CHR 0x0A"
  shows "rmatch (map ci w @ [Star is_space, lit CHR ''-'', Star is_space, Plus (\<lambda>c. c \<noteq> CHR 0x0A)])
           (c @ ws1 @ ''-'' @ r) i ms \<noteq> None"
proof -
  let ?k = "[Star is_space, Plus (\<lambda>c. c \<noteq> CHR 0x0A)]"
  have lc: "length c = length w" using c by (auto simp: py_lower_def)
  have nh: "\<not> is_space CHR ''-''" by (simp add: is_space_def)
  have d: "dropWhile is_space (ws1 @ CHR ''-'' # r) = CHR ''-'' # r"
    using ws nh by (simp add: dropWhile_append2 list_all_iff)
  have a: "rmatch (map ci w @ Star is_space # lit CHR ''-'' # ?k) (c @ ws1 @ ''-'' @ r) i ms =
           rmatch (Star is_space # lit CHR ''-'' # ?k) (ws1 @ ''-'' @ r) (i + length w) ms"
    using lc c by (subst rmatch_ci) simp
  have b: "rmatch (Star is_space # lit CHR ''-'' # ?k) (ws1 @ ''-'' @ r) (i + length w) ms =
           rmatch ?k r (Suc (i + length w + length (takeWhile is_space (ws1 @ ''-'' @ r)))) ms"
    by (subst rmatch_blank_hyphen) (simp add: d del: rmatch.simps)
  show ?thesis using a b rmatch_blank_then_text[OF r] by (simp del: rmatch.simps)
qed

text \<open>The capture \<open>\s*(.+)\<close> under \<open>DOTALL\<close>: the group runs to the end of the subject.\<close>

lemma rmatch_any_mark:
  "rmatch [Star (\<lambda>c. True), Mark] s i ms = Some (i + length s, ms @ [i + length s])"
  by (induction s arbitrary: i) simp_all

lemma rmatch_capture_rest:
  "rmatch [Star is_space, Mark, Plus (\<lambda>c. True), Mark] s i ms =
     (if s = [] then None
      else Some (i + length s,
                 ms @ [i + (if list_all is_space s then length s - 1
                            else length (takeWhile is_space s)),
                       i + length s]))"
proof (induction s arbitrary: i)
  case Nil
  then show ?case by simp
next
  case (Cons c cs)
  show ?case
  proof (cases "is_space c")
    case True
    show ?thesis
    proof (cases "cs = []")
      case True
      then show ?thesis using \<open>is_space c\<close> by (simp add: rmatch_any_mark)
    next
      case False
      then show ?thesis using \<open>is_space c\<close> Cons[of "Suc i"]
        by (cases cs) (auto simp: rmatch_any_mark)
    qed
  next
    case False
    then show ?thesis by (simp add: rmatch_any_mark)
  qed
qed

text \<open>The capture pattern at an occurrence of the word and the hyphen.\<close>

lemma capture_match:
  assumes c: "py_lower c = w" and ws: "list_all is_space ws1"
  shows "rmatch (map ci w @ [Star is_space, lit CHR ''-'', Star is_space, Mark, Plus (\<lambda>c. True), Mark])
           (c @ ws1 @ CHR ''-'' # r) i [] =
         (if r = [] then None
          else Some (Suc (i + length c + length ws1 + length r),
                     [Suc (i + length c + length ws1) +
                        (if list_all is_space r then length r - 1
                         else length (takeWhile is_space r)),
                      Suc (i + length c + length ws1 + length r)]))"
proof -
  let ?k = "[Star is_space, Mark, Plus (\<lambda>c. True), Mark]"
  have lc: "length c = length w" using c by (auto simp: py_lower_def)
  have nh: "\<not> is_space CHR ''-''" by (simp add: is_space_def)
  have d: "dropWhile is_space (ws1 @ CHR ''-'' # r) = CHR ''-'' # r"
    using ws nh by (simp add: dropWhile_append2 list_all_iff)
  have t: "takeWhile is_space (ws1 @ CHR ''-'' # r) = ws1"
    using ws nh by (simp add: takeWhile_append2 list_all_iff)
  have a: "rmatch (map ci w @ Star is_space # lit CHR ''-'' # ?k) (c @ ws1 @ CHR ''-'' # r) i [] =
           rmatch (Star is_space # lit CHR ''-'' # ?k) (ws1 @ CHR ''-'' # r) (i + length w) []"
    using lc c by (subst rmatch_ci) simp
  have b: "rmatch (Star is_space # lit CHR ''-'' # ?k) (ws1 @ CHR ''-'' # r) (i + length w) [] =
           rmatch ?k r (Suc (i + length w + length ws1)) []"
    by (subst rmatch_blank_hyphen) (simp add: d t del: rmatch.simps)
  show ?thesis using a b lc by (simp add: rmatch_capture_rest del: rmatch.simps)
qed

lemma capture_no_match_before:
  assumes nsh: "\<And>x. x \<in> set c \<Longrightarrow> \<not> is_space x \<and> x \<noteq> CHR ''-''"
    and c: "py_lower c = w" and ws: "list_all is_space ws1"
    and p: "p \<noteq> []" "CHR ''-'' \<notin> set p" and ne: "w \<noteq> []"
  shows "rmatch (map ci w @ [Star is_space, lit CHR ''-'', Star is_space, Mark, Plus (\<lambda>c. True), Mark])
           (p @ c @ ws1 @ CHR ''-'' # r) j [] = None"
proof -
  let ?k = "[Star is_space, Mark, Plus (\<lambda>c. True), Mark]"
  define z where "z = drop (length w) (p @ c)"
  have lc: "length c = length w" using c by (auto simp: py_lower_def)
  have cne: "c \<noteq> []" using c ne by (auto simp: py_lower_def)
  have dz: "drop (length w) (p @ c @ ws1 @ CHR ''-'' # r) = z @ ws1 @ CHR ''-'' # r"
    using lc by (simp add: z_def)
  have lt: "length w < length (p @ c)" using p(1) lc by (cases p) auto
  have zne: "z \<noteq> []" unfolding z_def using lt by (simp del: drop_append length_append)
  have "last z = last (p @ c)" unfolding z_def using lt by (rule last_drop)
  then have lz: "last z = last c" using cne by simp
  have zs: "set z \<subseteq> set p \<union> set c"
    unfolding z_def using set_drop_subset[of "length w" "p @ c"] by auto
  have lns: "\<not> is_space (last z)" using lz nsh[of "last c"] cne by simp
  have lin: "last z \<in> set z" using zne by simp
  have d1: "dropWhile is_space (z @ ws1 @ CHR ''-'' # r) = dropWhile is_space z @ ws1 @ CHR ''-'' # r"
    using lns lin by (rule dropWhile_append1[rotated])
  have dne: "dropWhile is_space z \<noteq> []"
    using lns lin by (auto simp: dropWhile_eq_Nil_conv)
  then obtain x xs where x: "dropWhile is_space z = x # xs"
    by (cases "dropWhile is_space z") auto
  have "x \<in> set z" using x set_dropWhileD[of x is_space z] by simp
  then have xh: "x \<noteq> CHR ''-''" using zs p(2) nsh[of x] by auto
  have "rmatch (Star is_space # lit CHR ''-'' # ?k) (z @ ws1 @ CHR ''-'' # r) i' [] = None" for i'
    by (subst rmatch_blank_hyphen) (simp add: d1 x xh del: rmatch.simps)
  then show ?thesis using dz by (subst rmatch_ci) (simp del: rmatch.simps drop_append)
qed

lemma space_not_open: "is_space c \<Longrightarrow> c \<noteq> CHR ''{''"
  by (auto simp: is_space_def)

lemma strip_after_blanks:
  "list_all is_space ws \<Longrightarrow> py_strip (dropWhile is_space (ws @ x)) = py_strip x"
  by (simp add: py_strip_def py_lstrip_def dropWhile_append2 list_all_iff)

text \<open>Where no occurrence starts, the capture pattern does not match.\<close>

lemma capture_none_gen:
  assumes "\<not> (py_lower (take (length w) s) = w \<and>
              (case dropWhile is_space (drop (length w) s) of
                 [] \<Rightarrow> False
               | c # r \<Rightarrow> c = CHR ''-'' \<and> r \<noteq> []))"
  shows "rmatch (map ci w @ [Star is_space, lit CHR ''-'', Star is_space, Mark, Plus (\<lambda>c. True), Mark])
           s i [] = None"
proof -
  let ?k = "[Star is_space, Mark, Plus (\<lambda>c. True), Mark]"
  have b: "rmatch (Star is_space # lit CHR ''-'' # ?k) t j [] = None"
    if n: "case dropWhile is_space t of [] \<Rightarrow> True | c # r \<Rightarrow> \<not> (c = CHR ''-'' \<and> r \<noteq> [])" for t j
  proof (cases "dropWhile is_space t")
    case Nil
    show ?thesis by (subst rmatch_blank_hyphen) (simp only: Nil list.case)
  next
    case (Cons a r)
    have "\<not> (a = CHR ''-'' \<and> r \<noteq> [])" using n unfolding Cons by simp
    then have "(if a = CHR ''-'' then rmatch ?k r J [] else None) = None" for J
      by (auto simp: rmatch_capture_rest simp del: rmatch.simps)
    then show ?thesis by (subst rmatch_blank_hyphen) (simp only: Cons list.case)
  qed
  show ?thesis
  proof (cases "py_lower (take (length w) s) = w")
    case False
    then show ?thesis by (subst rmatch_ci) (simp del: rmatch.simps)
  next
    case True
    have "case dropWhile is_space (drop (length w) s) of
            [] \<Rightarrow> True | c # r \<Rightarrow> \<not> (c = CHR ''-'' \<and> r \<noteq> [])"
    proof (cases "dropWhile is_space (drop (length w) s)")
      case Nil
      show ?thesis by (simp only: Nil list.case)
    next
      case (Cons a r)
      show ?thesis using assms True unfolding Cons by simp
    qed
    then have "rmatch (Star is_space # lit CHR ''-'' # ?k) (drop (length w) s) (i + length w) [] = None"
      by (rule b)
    then show ?thesis by (subst rmatch_ci) (simp del: rmatch.simps)
  qed
qed

lemma capture_none:
  "\<not> continue_starts s \<Longrightarrow> rmatch continue_capture_re s i [] = None"
  unfolding continue_starts_def continue_capture_re_def by (rule capture_none_gen)

lemma strip_blank: "list_all is_space y \<Longrightarrow> py_strip y = []"
  using strip_all_space[of y] by (simp add: py_strip_def py_rstrip_def)

lemma strip_capture_group:
  assumes ws2: "list_all is_space ws2" and R: "R = ws2 @ X"
  shows "py_strip (drop (if list_all is_space R then length R - 1
                         else length (takeWhile is_space R)) R) = py_strip X"
proof (cases "list_all is_space R")
  case True
  have "list_all is_space (drop (length R - 1) R)"
    using True by (auto simp: list_all_iff dest: in_set_dropD)
  then have "py_strip (drop (length R - 1) R) = []" by (rule strip_blank)
  moreover have "list_all is_space X" using True R by simp
  then have "py_strip X = []" by (rule strip_blank)
  ultimately show ?thesis using True by simp
next
  case False
  have "drop (length (takeWhile is_space R)) R = dropWhile is_space R"
    by (simp add: dropWhile_eq_drop)
  also have "py_strip \<dots> = py_strip X"
    unfolding R by (rule strip_after_blanks[OF ws2])
  finally show ?thesis using False by simp
qed

lemma list_all_upt: "list_all P [0..<n] \<Longrightarrow> \<forall>j<n. P j"
  by (simp add: list_all_iff)

text \<open>
  C6, as the specification states it, fails. A body that holds \<open>continue - X\<close> and
  ends with \<open>execute\<close> has the trigger \<open>execute\<close>, which is tested first. A text
  \<open>X\<close> that is a line feed is not detected: the dot of the detection pattern stops at a
  line feed. And the tags inside \<open>X\<close> are removed before the capture.
\<close>

theorem continue_trigger_counterexample:
  "''continue - fix the parser execute'' = ''continue'' @ '' '' @ ''-'' @ '' '' @ ''fix the parser execute''
   \<and> detect_execution_trigger ''continue - fix the parser execute'' = Some ''execute''
   \<and> ''continue -'' @ [CHR 0x0A] = ''continue'' @ '' '' @ ''-'' @ [] @ [CHR 0x0A]
   \<and> detect_execution_trigger (''continue -'' @ [CHR 0x0A]) = None
   \<and> ''continue - {{app: web}} go'' = ''continue'' @ '' '' @ ''-'' @ '' '' @ ''{{app: web}} go''
   \<and> extract_task_prompt ''continue - {{app: web}} go'' (Some ''continue'') = ''go''
   \<and> py_strip ''{{app: web}} go'' = ''{{app: web}} go''"
  by code_simp

text \<open>
  C6, amended. Take a body that holds \<open>continue\<close> in any letter case, blanks, a
  hyphen, blanks and a text \<open>X\<close>, after any text. If the trimmed body does not end with
  \<open>execute\<close> and the blanks and \<open>X\<close> behind the hyphen hold a character other than a
  line feed, the detected trigger is \<open>continue\<close>. If \<open>X\<close> is not empty and follows the
  leftmost occurrence of \<open>continue\<close>, blanks, hyphen in the body without its
  \<open>{{key: value}}\<close> tags, the cleaned prompt for \<open>continue\<close> is exactly \<open>X\<close>
  trimmed (\<open>X\<close> can span lines).
\<close>

theorem continue_trigger_and_prompt:
  "(\<not> endswith (py_strip body) ''execute'' \<and>
    body = pre @ c @ wa @ ''-'' @ wb @ X \<and> py_lower c = ''continue'' \<and>
    list_all is_space wa \<and> (\<exists>x\<in>set (wb @ X). x \<noteq> CHR 0x0A)
      \<longrightarrow> detect_execution_trigger body = Some ''continue'')
   \<and> (re_sub_empty tag_re body = pre' @ c' @ wa' @ ''-'' @ wb' @ X' \<and>
       py_lower c' = ''continue'' \<and> list_all is_space wa' \<and> list_all is_space wb' \<and>
       X' \<noteq> [] \<and>
       (\<forall>j<length pre'. \<not> continue_starts (drop j (re_sub_empty tag_re body)))
      \<longrightarrow> extract_task_prompt body (Some ''continue'') = py_strip X')"
proof (intro conjI impI)
  assume h: "\<not> endswith (py_strip body) ''execute'' \<and>
    body = pre @ c @ wa @ ''-'' @ wb @ X \<and> py_lower c = ''continue'' \<and>
    list_all is_space wa \<and> (\<exists>x\<in>set (wb @ X). x \<noteq> CHR 0x0A)"
  define R where "R = wb @ X"
  have ne: "\<not> endswith (py_strip body) ''execute''" using h by blast
  have body: "body = pre @ c @ wa @ ''-'' @ R" using h by (simp add: R_def)
  have c: "py_lower c = ''continue''" using h by simp
  have wsa: "list_all is_space wa" using h by simp
  have nl: "\<exists>x\<in>set R. x \<noteq> CHR 0x0A" using h unfolding R_def by blast
  have "rmatch continue_re (c @ wa @ ''-'' @ R) (0 + length pre) [] \<noteq> None"
    unfolding continue_re_def by (rule detect_match[OF c wsa nl])
  then have "search_from continue_re (pre @ c @ wa @ ''-'' @ R) 0 \<noteq> None"
    by (rule search_from_found)
  then have "re_search continue_re body \<noteq> None"
    unfolding body re_search_def .
  then show "detect_execution_trigger body = Some ''continue''"
    using ne by (simp add: detect_execution_trigger_def)
next
  assume h: "re_sub_empty tag_re body = pre' @ c' @ wa' @ ''-'' @ wb' @ X' \<and>
       py_lower c' = ''continue'' \<and> list_all is_space wa' \<and> list_all is_space wb' \<and>
       X' \<noteq> [] \<and>
       (\<forall>j<length pre'. \<not> continue_starts (drop j (re_sub_empty tag_re body)))"
  define R where "R = wb' @ X'"
  define z where "z = c' @ wa' @ CHR ''-'' # R"
  define T where "T = re_sub_empty tag_re body"
  have T: "T = pre' @ z" using h by (simp add: R_def z_def T_def)
  have c: "py_lower c' = ''continue''" using h by simp
  have wsa: "list_all is_space wa'" using h by simp
  have wsb: "list_all is_space wb'" using h by simp
  have Rne: "R \<noteq> []" using h by (simp add: R_def)
  have left: "\<not> continue_starts (drop j T)" if "j < length pre'" for j
    using h that unfolding T_def by blast
  have skip: "search_from continue_capture_re (pre' @ z) 0 =
              search_from continue_capture_re z (0 + length pre')"
  proof (rule search_from_skip)
    fix u1 u2 j assume u: "pre' = u1 @ u2" "u2 \<noteq> []"
    have "drop (length u1) T = u2 @ z" using T u(1) by simp
    moreover have "length u1 < length pre'" using u by simp
    ultimately have "\<not> continue_starts (u2 @ z)" using left[of "length u1"] by simp
    then show "rmatch continue_capture_re (u2 @ z) j [] = None" by (rule capture_none)
  qed
  define k where "k = (if list_all is_space R then length R - 1 else length (takeWhile is_space R))"
  define M where "M = Suc (length pre' + length c' + length wa') + k"
  define E where "E = Suc (length pre' + length c' + length wa' + length R)"
  have kl: "k \<le> length R"
    unfolding k_def using length_takeWhile_le[of is_space R] by simp
  have "rmatch continue_capture_re z (length pre') [] = Some (E, [M, E])"
    unfolding continue_capture_re_def z_def M_def E_def k_def
    using capture_match[OF c wsa, of R "length pre'"] Rne by simp
  then have "search_from continue_capture_re z (length pre') = Some (length pre', E, [M, E])"
    by (rule search_from_here)
  then have se: "re_search continue_capture_re T = Some (length pre', E, [M, E])"
    using skip T by (simp add: re_search_def)
  have dr: "drop M (pre' @ z) = drop k R" by (simp add: M_def z_def)
  have "length (drop k R) \<le> E - M" using kl by (simp add: M_def E_def)
  then have g: "group1 T [M, E] = drop k R"
    unfolding group1_def T using dr by simp
  have "py_strip (drop k R) = py_strip X'"
    unfolding k_def by (rule strip_capture_group[OF wsb R_def])
  then show "extract_task_prompt body (Some ''continue'') = py_strip X'"
    using g se by (simp add: extract_task_prompt_def T_def)
qed

text \<open>
  A body with a tag, a capitalised keyword and a text of two lines; and a body with
  hyphens and single braces around the keyword.
\<close>

theorem continue_trigger_and_prompt_witness:
  "detect_execution_trigger
     (''{{model: opus}} Continue - '' @ [CHR 0x0A] @ ''add the tests'' @ [CHR 0x0A] @ ''and the docs  '')
     = Some ''continue''
   \<and> extract_task_prompt
     (''{{model: opus}} Continue - '' @ [CHR 0x0A] @ ''add the tests'' @ [CHR 0x0A] @ ''and the docs  '')
     (Some ''continue'')
     = ''add the tests'' @ [CHR 0x0A] @ ''and the docs''
   \<and> detect_execution_trigger ''a-b: fix {x} continue - use {y}'' = Some ''continue''
   \<and> extract_task_prompt ''a-b: fix {x} continue - use {y}'' (Some ''continue'') = ''use {y}''"
proof -
  let ?X = "''add the tests'' @ [CHR 0x0A] @ ''and the docs  ''"
  let ?B = "''{{model: opus}} Continue - '' @ [CHR 0x0A] @ ?X"
  let ?T = "'' Continue - '' @ [CHR 0x0A] @ ?X"
  let ?C = "''a-b: fix {x} continue - use {y}''"
  note t1 = continue_trigger_and_prompt
      [where body = ?B and pre = "''{{model: opus}} ''" and c = "''Continue''" and wa = "'' ''"
         and wb = "[CHR '' '', CHR 0x0A]" and X = ?X
         and pre' = "'' ''" and c' = "''Continue''" and wa' = "'' ''"
         and wb' = "[CHR '' '', CHR 0x0A]" and X' = ?X]
  note t2 = continue_trigger_and_prompt
      [where body = ?C and pre = "''a-b: fix {x} ''" and c = "''continue''" and wa = "'' ''"
         and wb = "'' ''" and X = "''use {y}''"
         and pre' = "''a-b: fix {x} ''" and c' = "''continue''" and wa' = "'' ''"
         and wb' = "'' ''" and X' = "''use {y}''"]
  have e1: "\<not> endswith (py_strip ?B) ''execute''" by code_simp
  have e2: "\<not> endswith (py_strip ?C) ''execute''" by code_simp
  have b1: "?B = ''{{model: opus}} '' @ ''Continue'' @ '' '' @ ''-'' @ [CHR '' '', CHR 0x0A] @ ?X"
    by simp
  have b2: "?C = ''a-b: fix {x} '' @ ''continue'' @ '' '' @ ''-'' @ '' '' @ ''use {y}''"
    by simp
  have r1: "re_sub_empty tag_re ?B = ?T" by code_simp
  have r2: "re_sub_empty tag_re ?C = ?C" by code_simp
  have T1: "re_sub_empty tag_re ?B = '' '' @ ''Continue'' @ '' '' @ ''-'' @ [CHR '' '', CHR 0x0A] @ ?X"
    using r1 by simp
  have T2: "re_sub_empty tag_re ?C = ''a-b: fix {x} '' @ ''continue'' @ '' '' @ ''-'' @ '' '' @ ''use {y}''"
    using r2 by simp
  have c1: "py_lower ''Continue'' = ''continue''" by code_simp
  have c2: "py_lower ''continue'' = ''continue''" by code_simp
  have w1: "list_all is_space '' ''" by code_simp
  have w2: "list_all is_space [CHR '' '', CHR 0x0A]" by code_simp
  have n1: "\<exists>x\<in>set ([CHR '' '', CHR 0x0A] @ ?X). x \<noteq> CHR 0x0A" by simp
  have n2: "\<exists>x\<in>set ('' '' @ ''use {y}''). x \<noteq> CHR 0x0A" by simp
  have x1: "?X \<noteq> []" by simp
  have x2: "''use {y}'' \<noteq> []" by simp
  have a1: "list_all (\<lambda>j. \<not> continue_starts (drop j ?T)) [0..<length '' '']" by code_simp
  have l1: "\<forall>j<length '' ''. \<not> continue_starts (drop j (re_sub_empty tag_re ?B))"
    unfolding r1 by (rule list_all_upt[OF a1])
  have a2: "list_all (\<lambda>j. \<not> continue_starts (drop j ?C)) [0..<length ''a-b: fix {x} '']"
    by code_simp
  have l2: "\<forall>j<length ''a-b: fix {x} ''. \<not> continue_starts (drop j (re_sub_empty tag_re ?C))"
    unfolding r2 by (rule list_all_upt[OF a2])
  have s1: "py_strip ?X = ''add the tests'' @ [CHR 0x0A] @ ''and the docs''" by code_simp
  have s2: "py_strip ''use {y}'' = ''use {y}''" by code_simp
  have d1: "detect_execution_trigger ?B = Some ''continue''"
    by (rule t1[THEN conjunct1, THEN mp]) (intro conjI e1 b1 c1 w1 n1)
  have p1: "extract_task_prompt ?B (Some ''continue'') = py_strip ?X"
    by (rule t1[THEN conjunct2, THEN mp]) (intro conjI T1 c1 w1 w2 x1 l1)
  have d2: "detect_execution_trigger ?C = Some ''continue''"
    by (rule t2[THEN conjunct1, THEN mp]) (intro conjI e2 b2 c2 w1 n2)
  have p2: "extract_task_prompt ?C (Some ''continue'') = py_strip ''use {y}''"
    by (rule t2[THEN conjunct2, THEN mp]) (intro conjI T2 c2 w1 x2 l2)
  show ?thesis using d1 p1 d2 p2 unfolding s1 s2 by (intro conjI)
qed

end
